theory Spec2Isabelle
  imports Main "HOL-Library.Sublist" "HOL-Library.Multiset" "HOL-Library.Code_Target_Nat"
begin

section \<open>Strings: the functions of Go's strings and bytes packages that reader.go calls\<close>

text \<open>
  A Go string is a sequence of bytes, here a \<^typ>\<open>string\<close> (a list of 8-bit characters).
  The functions below follow the definitions of the Go standard library for the
  arguments that reader.go passes to them.
\<close>

definition HasPrefix :: "string \<Rightarrow> string \<Rightarrow> bool" where
  \<comment> \<open>strings.HasPrefix: len(s) >= len(prefix) && s[:len(prefix)] == prefix\<close>
  "HasPrefix s p = (length p \<le> length s \<and> take (length p) s = p)"

definition HasSuffix :: "string \<Rightarrow> string \<Rightarrow> bool" where
  \<comment> \<open>strings.HasSuffix: len(s) >= len(suffix) && s[len(s)-len(suffix):] == suffix\<close>
  "HasSuffix s p = (length p \<le> length s \<and> drop (length s - length p) s = p)"

definition TrimSuffix :: "string \<Rightarrow> string \<Rightarrow> string" where
  \<comment> \<open>strings.TrimSuffix: s without the trailing suffix, s itself when it does not end so\<close>
  "TrimSuffix s p = (if HasSuffix s p then take (length s - length p) s else s)"

fun Index :: "string \<Rightarrow> string \<Rightarrow> nat option" where
  \<comment> \<open>strings.Index: the index of the first instance of substr in s; None stands for -1\<close>
  "Index [] sub = (if sub = [] then Some 0 else None)"
| "Index (c # cs) sub =
     (if HasPrefix (c # cs) sub then Some 0 else map_option Suc (Index cs sub))"

definition Contains :: "string \<Rightarrow> string \<Rightarrow> bool" where
  \<comment> \<open>strings.Contains: Index(s, substr) >= 0\<close>
  "Contains s sub = (Index s sub \<noteq> None)"

function Count :: "string \<Rightarrow> string \<Rightarrow> nat" where
  \<comment> \<open>strings.Count for a non-empty separator: the number of non-overlapping instances,
      found from left to right. (For the empty separator Go returns the number of runes
      plus one; reader.go never passes it, and bytes are counted here.)\<close>
  "Count s sub =
     (if sub = [] then Suc (length s)
      else case Index s sub of
             None \<Rightarrow> 0
           | Some i \<Rightarrow> Suc (Count (drop (i + length sub) s) sub))"
  by pat_completeness auto

lemma Index_bound: "Index s sub = Some i \<Longrightarrow> i + length sub \<le> length s"
  by (induction s arbitrary: i) (auto simp: HasPrefix_def split: if_splits)

termination Count
proof (relation "measure (\<lambda>(s, sub). length s)")
  show "wf (measure (\<lambda>(s, sub). length s))" by simp
next
  fix s sub :: string and i
  assume "sub \<noteq> []" and "Index s sub = Some i"
  then have "0 < length sub" and "i + length sub \<le> length s"
    by (simp_all add: Index_bound)
  then have "length s - (i + length sub) < length s"
    by arith
  then show "((drop (i + length sub) s, sub), (s, sub)) \<in> measure (\<lambda>(s, sub). length s)"
    by simp
qed

declare Count.simps [simp del]

fun Replace :: "string \<Rightarrow> string \<Rightarrow> string \<Rightarrow> nat \<Rightarrow> string" where
  \<comment> \<open>strings.Replace(s, old, new, n) for a non-empty old and n >= 0: the first n
      non-overlapping instances of old, found from left to right, become new; when s has
      fewer, all of them do.\<close>
  "Replace s old new 0 = s"
| "Replace s old new (Suc n) =
     (case Index s old of
        None \<Rightarrow> s
      | Some j \<Rightarrow> take j s @ new @ Replace (drop (j + length old) s) old new n)"

definition ToUpper :: "string \<Rightarrow> string" where
  \<comment> \<open>strings.ToUpper on ASCII text: the letters a..z become A..Z, every other byte stays\<close>
  "ToUpper s =
     map (\<lambda>c. if 97 \<le> (of_char c :: nat) \<and> (of_char c :: nat) \<le> 122
               then char_of ((of_char c :: nat) - 32) else c) s"

definition newline :: char where
  "newline = CHR 0x0A"

fun Split :: "string \<Rightarrow> string list" where
  \<comment> \<open>bytes.Split(s, []byte{'\n'}): the pieces between the newlines; one more piece than
      there are newlines, so the empty input gives one empty piece\<close>
  "Split [] = [[]]"
| "Split (c # cs) =
     (if c = newline then [] # Split cs
      else case Split cs of
             [] \<Rightarrow> [[c]]
           | l # ls \<Rightarrow> (c # l) # ls)"

section \<open>The constants of package gotest\<close>

definition whitespaceIndent :: string where
  "whitespaceIndent = ''    ''"

text \<open>
  Modelled from the spec: the action constants ActionFail, ActionPass and ActionSkip are
  declared in a file of package gotest that is not among the sources. The spec gives the
  action vocabulary as "run", "output", "pass", "fail", "skip", and the upper-cased verdict
  tokens as "FAIL", "PASS", "SKIP".
\<close>

definition ActionFail :: string where "ActionFail = ''fail''"
definition ActionPass :: string where "ActionPass = ''pass''"
definition ActionSkip :: string where "ActionSkip = ''skip''"
definition ActionOutput :: string where "ActionOutput = ''output''"

definition isResultActionRow :: "string \<Rightarrow> bool" where
  \<comment> \<open>the closure isResultActionRow of Reader.walk\<close>
  "isResultActionRow s =
     (let isGroupPrefix = Contains s ''---'';
          isAction = (Contains s (ToUpper ActionFail) \<or>
                      Contains s (ToUpper ActionPass) \<or>
                      Contains s (ToUpper ActionSkip))
      in isGroupPrefix \<and> isAction)"

section \<open>The data of package gotest\<close>

text \<open>
  Modelled from the spec: the struct Test is declared in a file that is not among the
  sources. reader.go reads and writes its fields Name, Package and Output (a slice of
  strings); the spec adds "whatever verdict/timing fields the last relevant event set",
  here Status and Elapsed. The timing is opaque to this core and carried through; an
  integer stands for it.
\<close>

record Test =
  Name :: string
  Package :: string
  Output :: "string list"
  Status :: string
  Elapsed :: int

text \<open>
  Modelled from the spec: the struct prefixNode is declared in a file that is not among
  the sources. reader.go dereferences node.Value as a pointer to a Test and passes the
  elements of node.Children to walk as pointers to nodes; either pointer may be nil
  (\<^term>\<open>None\<close>).
\<close>

datatype prefixNode =
  PrefixNode (Value: "Test option") (Children: "prefixNode option list")

datatype NestedTest =
  NestedTest (NValue: Test) (NChildren: "NestedTest list") (Log: string)

text \<open>
  The struct prefixLog. Its field buf points to a buffer that a copy shares with its
  original, so the buffer is not a field here: the functions below take its contents and
  return the new contents.
\<close>

record prefixLog =
  prefix :: string
  pos :: int

definition newPrefixLog :: prefixLog where
  "newPrefixLog = \<lparr>prefix = [], pos = 0\<rparr>"

definition copy :: "prefixLog \<Rightarrow> string \<Rightarrow> prefixLog" where
  \<comment> \<open>prefixLog.copy; the second argument is the contents of r.buf\<close>
  "copy r buf = \<lparr>prefix = prefix r, pos = int (length buf)\<rparr>"

definition incrPrefix :: "prefixLog \<Rightarrow> prefixLog" where
  "incrPrefix r = r\<lparr>prefix := prefix r @ whitespaceIndent\<rparr>"

definition decrPrefix :: "prefixLog \<Rightarrow> prefixLog" where
  "decrPrefix r = r\<lparr>prefix := TrimSuffix (prefix r) whitespaceIndent\<rparr>"

section \<open>sort.Slice\<close>

text \<open>
  sort.Slice of Go 1.20 (the version go.mod names) calls pdqsort_func, which runs
  insertionSort_func on a range of at most 12 elements:
  \<^verbatim>\<open>for i := a + 1; i < b; i++ {
      for j := i; j > a && data.Less(j, j-1); j-- { data.Swap(j, j-1) } }\<close>
  \<open>insertBack\<close> is the inner loop, on the reversed sorted part: the new element moves
  towards the front while it is less than its left neighbour.
  On a longer slice pdqsort_func partitions; that part of the standard library is not
  modelled and is the parameter \<open>pdq\<close>, of which theorems assume at most what sort.Slice
  documents: the result is the input, sorted by less, and the sort is not stable.
\<close>

fun insertBack :: "('a \<Rightarrow> 'a \<Rightarrow> bool) \<Rightarrow> 'a \<Rightarrow> 'a list \<Rightarrow> 'a list" where
  "insertBack lt x [] = [x]"
| "insertBack lt x (y # ys) = (if lt x y then y # insertBack lt x ys else x # y # ys)"

definition insertionSort :: "('a \<Rightarrow> 'a \<Rightarrow> bool) \<Rightarrow> 'a list \<Rightarrow> 'a list" where
  "insertionSort lt data = rev (foldl (\<lambda>front x. insertBack lt x front) [] data)"

definition sort_Slice ::
  "('a list \<Rightarrow> 'a list) \<Rightarrow> ('a \<Rightarrow> 'a \<Rightarrow> bool) \<Rightarrow> 'a list \<Rightarrow> 'a list" where
  "sort_Slice pdq lt data =
     (if length data \<le> 12 then insertionSort lt data else pdq data)"

section \<open>Reader.walk\<close>

fun writeOutput :: "string \<Rightarrow> string list \<Rightarrow> string \<Rightarrow> string" where
  \<comment> \<open>the loop over testCase.Value.Output: a result action row gets the prefix, and every
      fragment is written to the buffer\<close>
  "writeOutput p [] buf = buf"
| "writeOutput p (out # outs) buf =
     writeOutput p outs (buf @ (if isResultActionRow out then p @ out else out))"

definition emit :: "string \<Rightarrow> string \<Rightarrow> string" where
  \<comment> \<open>what one iteration of that loop writes for the fragment out\<close>
  "emit p out = (if isResultActionRow out then p @ out else out)"

definition stringsOf :: "string \<Rightarrow> string list" where
  \<comment> \<open>the bytes read back, as strings: every piece of the split gets a newline, and the
      last one loses it again. lastIdx is in range, since Split returns at least one
      piece.\<close>
  "stringsOf all =
     (let stringsSlice = map (\<lambda>t. t @ [newline]) (Split all);
          lastIdx = length stringsSlice - 1
      in stringsSlice[lastIdx := TrimSuffix (stringsSlice ! lastIdx) [newline]])"

fun scanMarks ::
  "nat \<Rightarrow> string list \<Rightarrow> string list \<Rightarrow> nat \<Rightarrow> string list \<times> string list \<times> nat" where
  \<comment> \<open>the loop for i := len(stringsSlice) - 1; i >= 0; i--; the first argument is i + 1\<close>
  "scanMarks 0 stringsSlice mark mx = (stringsSlice, mark, mx)"
| "scanMarks (Suc i) stringsSlice mark mx =
     (if isResultActionRow (stringsSlice ! i) then
        let cnt = Count (stringsSlice ! i) whitespaceIndent;
            mx' = (if cnt < mx then cnt else mx)
        in scanMarks i (take i stringsSlice @ drop (Suc i) stringsSlice)
             (mark @ [stringsSlice ! i]) mx'
      else scanMarks i stringsSlice mark mx)"

definition lessIndent :: "string \<Rightarrow> string \<Rightarrow> bool" where
  \<comment> \<open>the less function given to sort.Slice\<close>
  "lessIndent a b = (Count a whitespaceIndent < Count b whitespaceIndent)"

definition buildLog :: "(string list \<Rightarrow> string list) \<Rightarrow> string \<Rightarrow> string" where
  \<comment> \<open>from the bytes read back to testCase.Log\<close>
  "buildLog pdq all =
     (let stringsSlice = stringsOf all;
          (stringsSlice, mark, mx) = scanMarks (length stringsSlice) stringsSlice [] 2147483647;
          mark = sort_Slice pdq lessIndent mark
      in concat (map (\<lambda>row. Replace row whitespaceIndent [] mx) (stringsSlice @ mark)))"

datatype walked = Panic | NotOk | Ok NestedTest

text \<open>
  walk returns its pair (a NestedTest and ok) as \<^term>\<open>Ok\<close> or \<^term>\<open>NotOk\<close>, or panics
  (dereferencing node.Value when it is nil). With the result come the prefixLog the
  caller passed, as walk leaves it, and the contents of the shared buffer.
  The deferred decrPrefix runs on every return after incrPrefix, and when a child panics.
  testCase.Value is a copy of the node's Test whose Output is cut to length 0.
\<close>

fun walk ::
    "(string list \<Rightarrow> string list) \<Rightarrow> prefixNode option \<Rightarrow> prefixLog \<Rightarrow> string \<Rightarrow>
      walked \<times> prefixLog \<times> string"
  and walkChildren ::
    "(string list \<Rightarrow> string list) \<Rightarrow> prefixNode option list \<Rightarrow> prefixLog \<Rightarrow> string \<Rightarrow>
      NestedTest list option \<times> string" where
  "walk pdq None pl buf = (NotOk, pl, buf)"
| "walk pdq (Some (PrefixNode None cs)) pl buf = (Panic, pl, buf)"
| "walk pdq (Some (PrefixNode (Some t) cs)) pl buf =
     (let buf1 = writeOutput (prefix pl) (Output t) buf;
          pl1 = incrPrefix pl
      in case walkChildren pdq cs pl1 buf1 of
           (None, buf2) \<Rightarrow> (Panic, decrPrefix pl1, buf2)
         | (Some children, buf2) \<Rightarrow>
             if pos pl1 < 0 then (NotOk, decrPrefix pl1, buf2)
             else (Ok (NestedTest (t\<lparr>Output := []\<rparr>) children
                         (buildLog pdq (drop (nat (pos pl1)) buf2))),
                   decrPrefix pl1, buf2))"
| "walkChildren pdq [] pl buf = (Some [], buf)"
| "walkChildren pdq (nod # nods) pl buf =
     (case walk pdq nod (copy pl buf) buf of
        (Panic, _, buf1) \<Rightarrow> (None, buf1)
      | (NotOk, _, buf1) \<Rightarrow> walkChildren pdq nods pl buf1
      | (Ok child, _, buf1) \<Rightarrow>
          (case walkChildren pdq nods pl buf1 of
             (None, buf2) \<Rightarrow> (None, buf2)
           | (Some children, buf2) \<Rightarrow> (Some (child # children), buf2)))"

section \<open>The trie and the events\<close>

text \<open>
  Modelled from the spec: the struct Entry, one decoded input record, is declared in a
  file that is not among the sources. reader.go reads row.TestName and row.Package; the
  spec lists the fields consumed: package identifier, test name, action, output fragment
  and elapsed time.
\<close>

record Entry =
  rowPackage :: string
  TestName :: string
  Action :: string
  rowOutput :: string
  rowElapsed :: int

text \<open>
  Modelled from the spec: Test.Update is defined in a file that is not among the sources.
  The spec: "output-emitted events append their fragment to the Test's output sequence;
  pass/fail/skip events set terminal status and timing; other actions are accepted without
  effect".
\<close>

definition Update :: "Test \<Rightarrow> Entry \<Rightarrow> Test" where
  "Update tc row =
     (if Action row = ActionOutput then tc\<lparr>Output := Output tc @ [rowOutput row]\<rparr>
      else if Action row = ActionPass \<or> Action row = ActionFail \<or> Action row = ActionSkip
        then tc\<lparr>Status := Action row, Elapsed := rowElapsed row\<rparr>
      else tc)"

definition Key :: "Test \<Rightarrow> string" where
  \<comment> \<open>a Test is "keyed uniquely by package + "/" + name"\<close>
  "Key t = Package t @ ''/'' @ Name t"

text \<open>
  Modelled from the spec: the methods find and insert of prefixNode are defined in a file
  that is not among the sources. The spec: "Look up key in the trie. If absent, create a
  new Test with name/package fields and insert it at the trie path derived from splitting
  name on "/": each prefix of the split name (combined with package) is a path segment;
  intermediate segments are created as parent nodes if missing, in first-seen order", and
  "a node's children are exactly the Test identities whose compound key is this node's key
  with one additional "/"-delimited segment appended"; a node's Test is "nil only for the
  synthetic root".

  Here \<open>nodeTests\<close> lists the Tests of a trie in depth-first order and \<open>nodeKeys\<close> the
  keys of its nodes (\<^term>\<open>None\<close> for a node without Test, the root); find looks the key up
  among them. insert goes along the path of the name: a segment is missing when the
  lookup of its key fails, and is then created as the last child of the node of the
  segment before it (of the root, for the first segment). A parent created on the way gets
  a Test with the name and package fields of its segment, as a Test created by ReadAll
  has. A Test found in the trie is changed in place through the pointer find returned:
  \<open>modify\<close> applies the change to the Test of that key.
\<close>

fun nodeTests :: "prefixNode \<Rightarrow> Test list"
  and childTests :: "prefixNode option list \<Rightarrow> Test list" where
  "nodeTests (PrefixNode v cs) = (case v of None \<Rightarrow> [] | Some t \<Rightarrow> [t]) @ childTests cs"
| "childTests [] = []"
| "childTests (None # cs) = childTests cs"
| "childTests (Some n # cs) = nodeTests n @ childTests cs"

fun nodeKeys :: "prefixNode \<Rightarrow> string option list"
  and childKeys :: "prefixNode option list \<Rightarrow> string option list" where
  "nodeKeys (PrefixNode v cs) = map_option Key v # childKeys cs"
| "childKeys [] = []"
| "childKeys (None # cs) = childKeys cs"
| "childKeys (Some n # cs) = nodeKeys n @ childKeys cs"

definition find :: "prefixNode \<Rightarrow> string \<Rightarrow> Test option" where
  "find p key = List.find (\<lambda>t. Key t = key) (nodeTests p)"

fun addChild :: "string option \<Rightarrow> Test \<Rightarrow> prefixNode \<Rightarrow> prefixNode"
  and addChildren :: "string option \<Rightarrow> Test \<Rightarrow> prefixNode option list \<Rightarrow> prefixNode option list" where
  "addChild parent t (PrefixNode v cs) =
     PrefixNode v (addChildren parent t cs @
       (if map_option Key v = parent then [Some (PrefixNode (Some t) [])] else []))"
| "addChildren parent t [] = []"
| "addChildren parent t (None # cs) = None # addChildren parent t cs"
| "addChildren parent t (Some n # cs) = Some (addChild parent t n) # addChildren parent t cs"

definition ensure :: "string option \<Rightarrow> Test \<Rightarrow> prefixNode \<Rightarrow> prefixNode" where
  "ensure parent t p = (if find p (Key t) = None then addChild parent t p else p)"

fun insertPath :: "string option \<Rightarrow> Test list \<Rightarrow> prefixNode \<Rightarrow> prefixNode" where
  "insertPath parent [] p = p"
| "insertPath parent (t # ts) p = insertPath (Some (Key t)) ts (ensure parent t p)"

definition pathNames :: "string \<Rightarrow> string list" where
  \<comment> \<open>the prefixes of the name split on "/": for "A/B/C" they are "A", "A/B", "A/B/C"\<close>
  "pathNames name =
     map (\<lambda>i. take i name) (filter (\<lambda>i. name ! i = CHR ''/'') [0..<length name]) @ [name]"

definition newTest :: "string \<Rightarrow> string \<Rightarrow> Test" where
  \<comment> \<open>&Test{Name: name, Package: package}: the other fields are zero\<close>
  "newTest name package =
     \<lparr>Name = name, Package = package, Output = [], Status = [], Elapsed = 0\<rparr>"

definition insert :: "Test \<Rightarrow> prefixNode \<Rightarrow> prefixNode" where
  "insert obj p =
     insertPath None
       (map (\<lambda>n. newTest n (Package obj)) (butlast (pathNames (Name obj))) @ [obj]) p"

fun modify :: "string \<Rightarrow> (Test \<Rightarrow> Test) \<Rightarrow> prefixNode \<Rightarrow> prefixNode"
  and modifyChildren ::
    "string \<Rightarrow> (Test \<Rightarrow> Test) \<Rightarrow> prefixNode option list \<Rightarrow> prefixNode option list" where
  "modify key f (PrefixNode v cs) =
     PrefixNode (map_option (\<lambda>t. if Key t = key then f t else t) v) (modifyChildren key f cs)"
| "modifyChildren key f [] = []"
| "modifyChildren key f (None # cs) = None # modifyChildren key f cs"
| "modifyChildren key f (Some n # cs) = Some (modify key f n) # modifyChildren key f cs"

section \<open>Reader.ReadAll\<close>

datatype error =
    Canceled
  | DeadlineExceeded
  | DecodeError string
  | Errorf string error
  | joinError "error list"

definition errors_Join :: "error list \<Rightarrow> error option" where
  \<comment> \<open>errors.Join of non-nil errors: nil when there is none\<close>
  "errors_Join errs = (if errs = [] then None else Some (joinError errs))"

record ResultSet =
  Err :: "error option"
  Tests :: "NestedTest list"

definition aggregate :: "Entry \<Rightarrow> prefixNode \<Rightarrow> prefixNode" where
  \<comment> \<open>the body of the loop of ReadAll from "if len(row.TestName) > 0" on\<close>
  "aggregate row p =
     (if TestName row \<noteq> [] then
        let key = rowPackage row @ ''/'' @ TestName row;
            p' = (case find p key of
                    Some tc \<Rightarrow> p
                  | None \<Rightarrow> insert (newTest (TestName row) (rowPackage row)) p)
        in modify key (\<lambda>tc. Update tc row) p'
      else p)"

text \<open>
  The input is the list of the lines the scanner yields. json.Unmarshal is the parameter
  \<open>unmarshal\<close>: for a line it gives the error, if any, and the record as the decoder left
  it, starting from the zero Entry. The context is the parameter \<open>ctx\<close>: \<open>ctx i\<close> is what
  ctx.Err() returns when the loop looks at ctx.Done() for the line of index i, \<^term>\<open>None\<close>
  while the context is not done.
\<close>

fun readLoop ::
  "(string \<Rightarrow> error option \<times> Entry) \<Rightarrow> (nat \<Rightarrow> error option) \<Rightarrow> nat \<Rightarrow> string list \<Rightarrow>
     error list \<Rightarrow> prefixNode \<Rightarrow> error + error list \<times> prefixNode" where
  "readLoop unmarshal ctx i [] errs p = Inr (errs, p)"
| "readLoop unmarshal ctx i (line # lines) errs p =
     (case ctx i of
        Some e \<Rightarrow> Inl e
      | None \<Rightarrow>
          (case unmarshal line of (err, row) \<Rightarrow>
             readLoop unmarshal ctx (Suc i) lines
               (case err of None \<Rightarrow> errs | Some e \<Rightarrow> errs @ [Errorf ''json.Unmarshal: '' e])
               (aggregate row p)))"

fun walkAll :: "(string list \<Rightarrow> string list) \<Rightarrow> prefixNode option list \<Rightarrow> NestedTest list option" where
  \<comment> \<open>the loop of ReadAll over prefix.Children; None when a walk panics\<close>
  "walkAll pdq [] = Some []"
| "walkAll pdq (nod # nods) =
     (case walk pdq nod newPrefixLog [] of
        (Panic, _, _) \<Rightarrow> None
      | (NotOk, _, _) \<Rightarrow> walkAll pdq nods
      | (Ok tc, _, _) \<Rightarrow> map_option ((#) tc) (walkAll pdq nods))"

datatype returned = Panicked | Returned ResultSet "error option"

definition ReadAll ::
  "(string list \<Rightarrow> string list) \<Rightarrow> (string \<Rightarrow> error option \<times> Entry) \<Rightarrow> (nat \<Rightarrow> error option) \<Rightarrow>
     string list \<Rightarrow> returned" where
  "ReadAll pdq unmarshal ctx lines =
     (case readLoop unmarshal ctx 0 lines [] (PrefixNode None []) of
        Inl e \<Rightarrow> Returned \<lparr>Err = None, Tests = []\<rparr> (Some e)
      | Inr (errs, p) \<Rightarrow>
          (case walkAll pdq (Children p) of
             None \<Rightarrow> Panicked
           | Some testCases \<Rightarrow> Returned \<lparr>Err = errors_Join errs, Tests = testCases\<rparr> None))"

fun flatten :: "NestedTest \<Rightarrow> Test list"
  and flattenAll :: "NestedTest list \<Rightarrow> Test list" where
  \<comment> \<open>the Tests of a result tree, depth first\<close>
  "flatten (NestedTest v cs l) = v # flattenAll cs"
| "flattenAll [] = []"
| "flattenAll (c # cs) = flatten c @ flattenAll cs"

section \<open>Notions used in the statements\<close>

definition indentCount :: "string \<Rightarrow> nat" where
  \<comment> \<open>strings.Count(row, whitespaceIndent), the indentation-unit count of walk\<close>
  "indentCount s = Count s whitespaceIndent"

definition minIndent :: "string list \<Rightarrow> nat" where
  \<comment> \<open>the value of mx after the loop: the least count among the result lines, and
      1<<31 - 1 when there is none\<close>
  "minIndent lines =
     Min (Set.insert 2147483647 (set (map indentCount (filter isResultActionRow lines))))"

definition strip :: "nat \<Rightarrow> string \<Rightarrow> string" where
  \<comment> \<open>strings.Replace(row, whitespaceIndent, "", mx)\<close>
  "strip mx row = Replace row whitespaceIndent [] mx"

text \<open>
  The log as the spec words it in steps 7 to 9 of the walk, for the comparison with
  \<open>buildLog\<close>: "sort the side collection ascending by indentation-unit count (ties broken
  by original relative order -- stable sort)", so the stable sort runs on the result
  lines in their original order.
\<close>

definition stableLog :: "string \<Rightarrow> string" where
  "stableLog all =
     (let lines = stringsOf all
      in concat (map (strip (minIndent lines))
           (filter (\<lambda>s. \<not> isResultActionRow s) lines @
            sort_key indentCount (filter isResultActionRow lines))))"

text \<open>
  Stripping "only leading indent units", as the spec words step 9: at most n indent units
  are taken from the front of the row.
\<close>

fun stripLeading :: "nat \<Rightarrow> string \<Rightarrow> string" where
  "stripLeading 0 row = row"
| "stripLeading (Suc n) row =
     (if HasPrefix row whitespaceIndent
      then stripLeading n (drop (length whitespaceIndent) row) else row)"

definition leadingLog :: "(string list \<Rightarrow> string list) \<Rightarrow> string \<Rightarrow> string" where
  "leadingLog pdq all =
     (let lines = stringsOf all
      in concat (map (stripLeading (minIndent lines))
           (filter (\<lambda>s. \<not> isResultActionRow s) lines @
            sort_Slice pdq lessIndent (rev (filter isResultActionRow lines)))))"

definition trieInv :: "prefixNode \<Rightarrow> bool" where
  \<comment> \<open>what holds of every trie that ReadAll builds: no two nodes have the same key, and
      the root alone has no Test\<close>
  "trieInv p = (distinct (nodeKeys p) \<and> Value p = None)"

definition trieOf :: "Entry list \<Rightarrow> prefixNode" where
  \<comment> \<open>the trie after the events rows, from the empty root of ReadAll\<close>
  "trieOf rows = foldl (\<lambda>p row. aggregate row p) (PrefixNode None []) rows"

definition decodeErrors :: "(string \<Rightarrow> error option \<times> Entry) \<Rightarrow> string list \<Rightarrow> error list" where
  \<comment> \<open>the errors that the loop of ReadAll collects for these lines\<close>
  "decodeErrors unmarshal lines =
     concat (map (\<lambda>line. case fst (unmarshal line) of
                            None \<Rightarrow> []
                          | Some e \<Rightarrow> [Errorf ''json.Unmarshal: '' e]) lines)"

definition rowsOf :: "(string \<Rightarrow> error option \<times> Entry) \<Rightarrow> string list \<Rightarrow> Entry list" where
  \<comment> \<open>the records that the decoder leaves for these lines\<close>
  "rowsOf unmarshal lines = map (\<lambda>line. snd (unmarshal line)) lines"

definition clearOutput :: "Test \<Rightarrow> Test" where
  \<comment> \<open>the copy of a Test that walk puts into the result\<close>
  "clearOutput t = t\<lparr>Output := []\<rparr>"

text \<open>
  The result of a walk as a function of the trie, for tries in which every node walked has
  a Test: \<open>written p n\<close> is what walking the node n with prefix p appends to the buffer,
  \<open>logOf\<close> is the log made of a slice of the buffer (the lines split, the narrative
  lines first, the sorted result lines after them, each stripped of the least count), and
  \<open>rebuildAll\<close> is the list of results for a list of children.
\<close>

definition logOf :: "(string list \<Rightarrow> string list) \<Rightarrow> string \<Rightarrow> string" where
  \<comment> \<open>reader.go:171-204 in one expression: bytes.Split, the narrative lines in order, the
      result lines collected backwards and sorted by count, strings.Replace of the least
      count on every line\<close>
  "logOf pdq all =
     (let lines = stringsOf all
      in concat (map (strip (minIndent lines))
           (filter (\<lambda>s. \<not> isResultActionRow s) lines @
            sort_Slice pdq lessIndent (rev (filter isResultActionRow lines)))))"

fun written :: "string \<Rightarrow> prefixNode \<Rightarrow> string"
  and writtenAll :: "string \<Rightarrow> prefixNode option list \<Rightarrow> string" where
  \<comment> \<open>reader.go:122-133 and 147-163: the fragments of the Test, the prefix before the
      result lines, then what the children write with one more indent unit\<close>
  "written p (PrefixNode v cs) =
     (case v of
        None \<Rightarrow> []
      | Some t \<Rightarrow> concat (map (emit p) (Output t)) @ writtenAll (p @ whitespaceIndent) cs)"
| "writtenAll p [] = []"
| "writtenAll p (None # cs) = writtenAll p cs"
| "writtenAll p (Some n # cs) = written p n @ writtenAll p cs"

fun rebuild :: "(string list \<Rightarrow> string list) \<Rightarrow> string \<Rightarrow> prefixNode \<Rightarrow> NestedTest list"
  and rebuildAll ::
    "(string list \<Rightarrow> string list) \<Rightarrow> string \<Rightarrow> prefixNode option list \<Rightarrow> NestedTest list" where
  \<comment> \<open>the NestedTest of a node: the Test without its Output, the results of the children,
      and the log of what the subtree wrote; a nil child is left out\<close>
  "rebuild pdq p (PrefixNode v cs) =
     (case v of
        None \<Rightarrow> []
      | Some t \<Rightarrow>
          [NestedTest (clearOutput t) (rebuildAll pdq (p @ whitespaceIndent) cs)
             (logOf pdq (written p (PrefixNode v cs)))])"
| "rebuildAll pdq p [] = []"
| "rebuildAll pdq p (None # cs) = rebuildAll pdq p cs"
| "rebuildAll pdq p (Some n # cs) = rebuild pdq p n @ rebuildAll pdq p cs"

subsection \<open>Example nodes, events and lines\<close>

definition testOf :: "string list \<Rightarrow> Test" where
  "testOf outs = \<lparr>Name = ''TestA'', Package = ''pkg'', Output = outs, Status = [], Elapsed = 0\<rparr>"

definition lineDeep :: string where
  "lineDeep = ''        --- PASS: TestA/Sub/Leaf (0.00s)'' @ [newline]"

definition lineShallow :: string where
  "lineShallow = ''    --- PASS: TestA/Sub (0.00s)'' @ [newline]"

definition nodeDepths :: prefixNode where
  "nodeDepths = PrefixNode (Some (testOf [lineDeep, lineShallow])) []"

definition linePass :: string where
  "linePass = ''--- PASS: TestA (0.00s)'' @ [newline]"

definition lineFail :: string where
  "lineFail = ''--- FAIL: TestB (0.00s)'' @ [newline]"

definition nodeTies :: prefixNode where
  "nodeTies = PrefixNode (Some (testOf [linePass, lineFail])) []"

definition lineTable :: string where
  "lineTable = ''got    4'' @ [newline]"

definition nodeInner :: prefixNode where
  "nodeInner = PrefixNode (Some (testOf [lineTable, lineShallow])) []"

definition lineLogged :: string where
  "lineLogged = ''    sub_test.go:5: hello'' @ [newline]"

definition nodeShared :: prefixNode where
  "nodeShared = PrefixNode (Some (testOf [lineLogged, lineShallow])) []"

definition event :: "string \<Rightarrow> string \<Rightarrow> string \<Rightarrow> Entry" where
  "event name action out =
     \<lparr>rowPackage = ''pkg'', TestName = name, Action = action, rowOutput = out, rowElapsed = 0\<rparr>"

definition rowsA :: "Entry list" where
  "rowsA = [event ''TestA'' ''run'' [], event ''TestA'' ''output'' linePass]"

definition decodeEx :: "string \<Rightarrow> error option \<times> Entry" where
  "decodeEx line =
     (if line = ''line run'' then (None, event ''TestA'' ''run'' [])
      else if line = ''line output'' then (None, event ''TestA'' ''output'' linePass)
      else if line = ''line wrong type'' then
        (Some (DecodeError ''cannot unmarshal''), event ''TestB'' ''output'' lineFail)
      else (Some (DecodeError ''invalid character''), event [] [] []))"

definition cancelledCtx :: "nat \<Rightarrow> error option" where
  "cancelledCtx i = Some Canceled"

definition liveCtx :: "nat \<Rightarrow> error option" where
  "liveCtx i = None"

definition linesEx :: "string list" where
  "linesEx = [''line run'', ''line broken'', ''line output'']"

text \<open>
  The events of a test TestA with a subtest TestA/Sub: the decoder \<open>decodeNested\<close> reads
  four well-formed lines, fails on a line with a wrong field type while leaving the test
  name and the action in the record, and fails on every other line leaving the empty record.
\<close>

definition lineRun :: string where
  "lineRun = ''=== RUN   TestA'' @ [newline]"

definition decodeNested :: "string \<Rightarrow> error option \<times> Entry" where
  "decodeNested line =
     (if line = ''line A run'' then (None, event ''TestA'' ''output'' lineRun)
      else if line = ''line Sub result'' then (None, event ''TestA/Sub'' ''output'' lineShallow)
      else if line = ''line A result'' then (None, event ''TestA'' ''output'' linePass)
      else if line = ''line A pass'' then (None, event ''TestA'' ''pass'' [])
      else if line = ''line A wrong type'' then
        (Some (DecodeError ''cannot unmarshal''), event ''TestA'' ''fail'' [])
      else (Some (DecodeError ''invalid character''), event [] [] []))"

definition linesNested :: "string list" where
  "linesNested = [''line A run'', ''line Sub result'', ''line A result'', ''line A pass'']"

definition linesBroken :: "string list" where
  "linesBroken =
     [''line A run'', ''line Sub result'', ''line broken'', ''line A result'', ''line A pass'']"

definition testsNested :: "string \<Rightarrow> NestedTest list" where
  "testsNested status =
     [NestedTest ((newTest ''TestA'' ''pkg'')\<lparr>Status := status\<rparr>)
        [NestedTest (newTest ''TestA/Sub'' ''pkg'') []
           (''--- PASS: TestA/Sub (0.00s)'' @ [newline])]
        (lineRun @ linePass @ ''        --- PASS: TestA/Sub (0.00s)'' @ [newline])]"

section \<open>Facts about the string functions\<close>

lemma HasPrefix_prefix: "HasPrefix s p \<longleftrightarrow> Sublist.prefix p s"
proof
  assume "HasPrefix s p"
  then have "take (length p) s = p"
    by (simp add: HasPrefix_def)
  then have "s = p @ drop (length p) s"
    using append_take_drop_id [of "length p" s] by simp
  then show "Sublist.prefix p s"
    by (rule Sublist.prefixI)
next
  assume "Sublist.prefix p s"
  then obtain zs where "s = p @ zs"
    by (auto simp: Sublist.prefix_def)
  then show "HasPrefix s p"
    by (simp add: HasPrefix_def)
qed

lemma Index_None_iff: "Index s sub = None \<longleftrightarrow> \<not> sublist sub s"
  by (induction s) (auto simp: HasPrefix_prefix sublist_Cons_right)

lemma Contains_sublist: "Contains s sub \<longleftrightarrow> sublist sub s"
  by (simp add: Contains_def Index_None_iff)

lemma ToUpper_Action:
  "ToUpper ActionFail = ''FAIL''" "ToUpper ActionPass = ''PASS''" "ToUpper ActionSkip = ''SKIP''"
  by code_simp+

subsection \<open>Splitting into lines and collecting the result lines\<close>

lemma Split_not_Nil: "Split s \<noteq> []"
  by (induction s) (auto split: list.splits)

lemma concat_Split: "concat (map (\<lambda>t. t @ [newline]) (butlast (Split s))) @ last (Split s) = s"
  by (induction s) (auto split: list.splits simp: Split_not_Nil)

lemma TrimSuffix_append: "TrimSuffix (t @ p) p = t"
  by (simp add: TrimSuffix_def HasSuffix_def)

lemma stringsOf_eq:
  "stringsOf all = map (\<lambda>t. t @ [newline]) (butlast (Split all)) @ [last (Split all)]"
proof -
  obtain ps p where sp: "Split all = ps @ [p]"
    using Split_not_Nil [of all] by (metis append_butlast_last_id)
  show ?thesis
    by (simp add: stringsOf_def Let_def sp nth_append list_update_append TrimSuffix_append)
qed

lemma concat_stringsOf: "concat (stringsOf all) = all"
  by (simp add: stringsOf_eq concat_Split)

lemma scanMarks_eq:
  "n \<le> length ss \<Longrightarrow>
   scanMarks n ss mark mx =
     (filter (\<lambda>s. \<not> isResultActionRow s) (take n ss) @ drop n ss,
      mark @ rev (filter isResultActionRow (take n ss)),
      fold min (map (\<lambda>s. Count s whitespaceIndent) (rev (filter isResultActionRow (take n ss)))) mx)"
proof (induction n arbitrary: ss mark mx)
  case 0
  then show ?case by simp
next
  case (Suc i)
  then have i: "i < length ss" by simp
  then have tk: "take (Suc i) ss = take i ss @ [ss ! i]"
    by (simp add: take_Suc_conv_app_nth)
  let ?ss' = "take i ss @ drop (Suc i) ss"
  have len: "i \<le> length ?ss'" using i by simp
  have t': "take i ?ss' = take i ss" using i by simp
  have d': "drop i ?ss' = drop (Suc i) ss" using i by simp
  show ?case
  proof (cases "isResultActionRow (ss ! i)")
    case True
    then show ?thesis
      using Suc.IH [OF len] by (simp add: tk t' d' Let_def min_def)
  next
    case False
    have "i \<le> length ss" using i by simp
    then show ?thesis
      using False Suc.IH [of ss] i by (simp add: tk Cons_nth_drop_Suc)
  qed
qed

subsection \<open>The insertion sort of sort.Slice is a stable sort\<close>

lemma mset_insertBack: "mset (insertBack lt x ys) = add_mset x (mset ys)"
  by (induction ys) auto

lemma set_insertBack: "set (insertBack lt x ys) = Set.insert x (set ys)"
  using mset_insertBack [of lt x ys] by (metis set_mset_add_mset_insert set_mset_mset)

lemma sorted_insertBack:
  "sorted (map f (rev ys)) \<Longrightarrow> sorted (map f (rev (insertBack (\<lambda>a b. f a < f b) x ys)))"
proof (induction ys)
  case Nil
  then show ?case by simp
next
  case (Cons y ys)
  then have ys: "sorted (map f (rev ys))" and le: "\<forall>z\<in>set ys. f z \<le> f y"
    by (auto simp: sorted_append)
  show ?case
  proof (cases "f x < f y")
    case True
    then show ?thesis
      using Cons.IH [OF ys] le by (auto simp: sorted_append set_insertBack)
  next
    case False
    then show ?thesis
      using Cons.prems le by (fastforce simp: sorted_append)
  qed
qed

lemma filter_insertBack:
  fixes f :: "'a \<Rightarrow> 'b::linorder"
  shows "filter (\<lambda>y. k = f y) (rev (insertBack (\<lambda>a b. f a < f b) x ys)) =
   filter (\<lambda>y. k = f y) (rev ys @ [x])"
  by (induction ys) auto

lemma foldl_insertBack_props:
  fixes f :: "'a \<Rightarrow> 'b::linorder"
  shows "sorted (map f (rev acc)) \<Longrightarrow>
   mset (foldl (\<lambda>front x. insertBack (\<lambda>a b. f a < f b) x front) acc xs) = mset acc + mset xs \<and>
   sorted (map f (rev (foldl (\<lambda>front x. insertBack (\<lambda>a b. f a < f b) x front) acc xs))) \<and>
   filter (\<lambda>y. k = f y) (rev (foldl (\<lambda>front x. insertBack (\<lambda>a b. f a < f b) x front) acc xs)) =
     filter (\<lambda>y. k = f y) (rev acc @ xs)"
proof (induction xs arbitrary: acc)
  case Nil
  then show ?case by simp
next
  case (Cons x xs)
  have s: "sorted (map f (rev (insertBack (\<lambda>a b. f a < f b) x acc)))"
    using Cons.prems by (rule sorted_insertBack)
  show ?case
    using Cons.IH [OF s] by (simp add: mset_insertBack filter_insertBack)
qed

lemma insertionSort_sort_key:
  fixes f :: "'a \<Rightarrow> 'b::linorder"
  shows "insertionSort (\<lambda>a b. f a < f b) xs = sort_key f xs"
proof (rule sym, rule properties_for_sort_key)
  show "mset (insertionSort (\<lambda>a b. f a < f b) xs) = mset xs"
    using foldl_insertBack_props [where f = f and acc = "[]" and xs = xs] by (simp add: insertionSort_def)
  show "sorted (map f (insertionSort (\<lambda>a b. f a < f b) xs))"
    using foldl_insertBack_props [where f = f and acc = "[]" and xs = xs] by (simp add: insertionSort_def)
  fix k
  show "filter (\<lambda>x. f k = f x) (insertionSort (\<lambda>a b. f a < f b) xs) = filter (\<lambda>x. f k = f x) xs"
    using foldl_insertBack_props [where f = f and acc = "[]" and xs = xs and k = "f k"] by (simp add: insertionSort_def)
qed

subsection \<open>Counting and removing indent units\<close>

lemma Index_Some_decomp:
  "Index s sub = Some j \<Longrightarrow> s = take j s @ sub @ drop (j + length sub) s"
proof (induction s arbitrary: j)
  case Nil
  then show ?case by (simp split: if_splits)
next
  case (Cons c cs)
  show ?case
  proof (cases "HasPrefix (c # cs) sub")
    case True
    then have "j = 0" using Cons.prems by simp
    moreover have "c # cs = sub @ drop (length sub) (c # cs)"
      using True append_take_drop_id [of "length sub" "c # cs"] by (simp add: HasPrefix_def)
    ultimately show ?thesis by simp
  next
    case False
    then obtain j' where j': "Index cs sub = Some j'" "j = Suc j'"
      using Cons.prems by auto
    then show ?thesis using Cons.IH [OF j'(1)] by simp
  qed
qed

lemma HasPrefix_indent:
  "HasPrefix s whitespaceIndent \<longleftrightarrow> (\<exists>t. s = CHR '' '' # CHR '' '' # CHR '' '' # CHR '' '' # t)"
proof
  assume "HasPrefix s whitespaceIndent"
  then have "take (length whitespaceIndent) s = whitespaceIndent"
    by (simp add: HasPrefix_def)
  then have "whitespaceIndent @ drop (length whitespaceIndent) s = s"
    using append_take_drop_id [of "length whitespaceIndent" s] by simp
  then have "CHR '' '' # CHR '' '' # CHR '' '' # CHR '' '' # drop (length whitespaceIndent) s = s"
    by (simp add: whitespaceIndent_def)
  then show "\<exists>t. s = CHR '' '' # CHR '' '' # CHR '' '' # CHR '' '' # t"
    by (intro exI [of _ "drop (length whitespaceIndent) s"]) (rule sym)
next
  assume "\<exists>t. s = CHR '' '' # CHR '' '' # CHR '' '' # CHR '' '' # t"
  then obtain t where "s = CHR '' '' # CHR '' '' # CHR '' '' # CHR '' '' # t" ..
  then show "HasPrefix s whitespaceIndent"
    by (simp add: HasPrefix_def whitespaceIndent_def)
qed

lemma indent_append:
  "whitespaceIndent @ v = CHR '' '' # CHR '' '' # CHR '' '' # CHR '' '' # v"
  by (simp add: whitespaceIndent_def)

lemma no_straddle_aux:
  "\<not> HasPrefix (c # u @ whitespaceIndent @ v) whitespaceIndent \<Longrightarrow>
   \<not> HasPrefix (c # u @ r) whitespaceIndent"
proof (cases u)
  case Nil
  assume "\<not> HasPrefix (c # u @ whitespaceIndent @ v) whitespaceIndent"
  then show ?thesis using Nil by (auto simp: HasPrefix_indent indent_append)
next
  case u: (Cons a u1)
  assume n: "\<not> HasPrefix (c # u @ whitespaceIndent @ v) whitespaceIndent"
  show ?thesis
  proof (cases u1)
    case Nil
    then show ?thesis using n u by (auto simp: HasPrefix_indent indent_append)
  next
    case u1: (Cons b u2)
    show ?thesis
    proof (cases u2)
      case Nil
      then show ?thesis using n u u1 by (auto simp: HasPrefix_indent indent_append)
    next
      case (Cons d u3)
      then show ?thesis using n u u1 by (auto simp: HasPrefix_indent indent_append)
    qed
  qed
qed

lemma no_straddle:
  assumes np: "\<not> HasPrefix (c # cs) whitespaceIndent"
    and ix: "Index cs whitespaceIndent = Some j"
  shows "\<not> HasPrefix (c # take j cs @ r) whitespaceIndent"
proof -
  have "\<not> HasPrefix (c # take j cs @ whitespaceIndent @ drop (j + length whitespaceIndent) cs)
          whitespaceIndent"
    using np Index_Some_decomp [OF ix] by simp
  then show ?thesis
    by (rule no_straddle_aux)
qed

lemma Index_take_append:
  "Index s whitespaceIndent = Some j \<Longrightarrow>
   Index (take j s @ r) whitespaceIndent = map_option ((+) j) (Index r whitespaceIndent)"
proof (induction s arbitrary: j)
  case Nil
  then show ?case by (simp add: whitespaceIndent_def)
next
  case (Cons c cs)
  show ?case
  proof (cases "HasPrefix (c # cs) whitespaceIndent")
    case True
    then have "j = 0" using Cons.prems by simp
    then show ?thesis by (simp add: option.map_ident)
  next
    case False
    then obtain j' where j': "Index cs whitespaceIndent = Some j'" "j = Suc j'"
      using Cons.prems by auto
    have "\<not> HasPrefix (c # take j' cs @ r) whitespaceIndent"
      using False j'(1) by (rule no_straddle)
    then show ?thesis
      using Cons.IH [OF j'(1)] j'(2) by (simp add: option.map_comp comp_def)
  qed
qed

lemma Count_take_append:
  assumes "Index s whitespaceIndent = Some j"
  shows "Count (take j s @ r) whitespaceIndent = Count r whitespaceIndent"
proof -
  have len: "length (take j s) = j"
    using Index_bound [OF assms] by simp
  have ne: "whitespaceIndent \<noteq> []" by (simp add: whitespaceIndent_def)
  show ?thesis
  proof (cases "Index r whitespaceIndent")
    case None
    then show ?thesis
      using Index_take_append [OF assms, of r] ne
      by (simp add: Count.simps [of "take j s @ r"] Count.simps [of r])
  next
    case (Some i)
    have "drop (j + i + length whitespaceIndent) (take j s @ r) = drop (i + length whitespaceIndent) r"
      using len by simp
    then show ?thesis
      using Index_take_append [OF assms, of r] ne Some
      by (simp add: Count.simps [of "take j s @ r"] Count.simps [of r])
  qed
qed

lemma Count_Replace:
  "Count (Replace s whitespaceIndent [] n) whitespaceIndent = Count s whitespaceIndent - n"
proof (induction n arbitrary: s)
  case 0
  then show ?case by simp
next
  case (Suc n)
  have ne: "whitespaceIndent \<noteq> []" by (simp add: whitespaceIndent_def)
  show ?case
  proof (cases "Index s whitespaceIndent")
    case None
    then show ?thesis using ne by (simp add: Count.simps [of s])
  next
    case (Some j)
    then show ?thesis
      using Suc.IH [of "drop (j + length whitespaceIndent) s"] ne
      by (simp add: Count_take_append Count.simps [of s])
  qed
qed

lemma Count_0_no_prefix: "Count s whitespaceIndent = 0 \<Longrightarrow> \<not> HasPrefix s whitespaceIndent"
proof
  assume c: "Count s whitespaceIndent = 0" and h: "HasPrefix s whitespaceIndent"
  have ne: "whitespaceIndent \<noteq> []" by (simp add: whitespaceIndent_def)
  from h have "Index s whitespaceIndent = Some 0"
    by (cases s) (auto simp: HasPrefix_def whitespaceIndent_def)
  then show False using c ne by (simp add: Count.simps [of s])
qed

subsection \<open>The buffer and the prefix during a walk\<close>

lemma writeOutput_eq: "writeOutput p outs buf = buf @ concat (map (emit p) outs)"
  by (induction outs arbitrary: buf) (simp_all add: emit_def)

lemma decrPrefix_incrPrefix: "decrPrefix (incrPrefix pl) = pl"
  by (simp add: decrPrefix_def incrPrefix_def TrimSuffix_append)

lemma walk_frame:
  "fst (snd (walk pdq node pl buf)) = pl \<and> (\<exists>w. snd (snd (walk pdq node pl buf)) = buf @ w)"
  "\<exists>w. snd (walkChildren pdq nods pl buf) = buf @ w"
proof (induction pdq node pl buf and pdq nods pl buf rule: walk_walkChildren.induct)
  case (1 pdq pl buf)
  then show ?case by simp
next
  case (2 pdq cs pl buf)
  then show ?case by simp
next
  case (3 pdq t cs pl buf)
  then obtain w where
    "snd (walkChildren pdq cs (incrPrefix pl) (writeOutput (prefix pl) (Output t) buf)) =
       writeOutput (prefix pl) (Output t) buf @ w"
    by blast
  then show ?case
    by (auto simp: Let_def decrPrefix_incrPrefix writeOutput_eq split: prod.splits option.splits)
next
  case (4 pdq pl buf)
  then show ?case by simp
next
  case (5 pdq nod nods pl buf)
  obtain r pl' buf1 where w: "walk pdq nod (copy pl buf) buf = (r, pl', buf1)"
    by (cases "walk pdq nod (copy pl buf) buf") auto
  then obtain w1 where b1: "buf1 = buf @ w1"
    using 5(1) by auto
  show ?case
  proof (cases r)
    case Panic
    then show ?thesis using w b1 by simp
  next
    case NotOk
    have "\<exists>w. snd (walkChildren pdq nods pl buf1) = buf1 @ w"
      using 5(2) w NotOk by simp
    then show ?thesis using w b1 NotOk by auto
  next
    case (Ok child)
    have "\<exists>w. snd (walkChildren pdq nods pl buf1) = buf1 @ w"
      using 5(3) w Ok by simp
    then show ?thesis using w b1 Ok by (auto split: prod.splits option.splits)
  qed
qed

lemma walk_shift_aux:
  "\<forall>b. 0 \<le> pos pl \<longrightarrow>
     walk pdq node (pl\<lparr>pos := int (length b) + pos pl\<rparr>) (b @ x) =
       (case walk pdq node pl x of (r, pl', w) \<Rightarrow> (r, pl\<lparr>pos := int (length b) + pos pl\<rparr>, b @ w))"
  "\<forall>b pl'. prefix pl' = prefix pl \<longrightarrow>
     walkChildren pdq nods pl' (b @ x) =
       (case walkChildren pdq nods pl x of (r, w) \<Rightarrow> (r, b @ w))"
proof (induction pdq node pl x and pdq nods pl x rule: walk_walkChildren.induct)
  case (1 pdq pl buf)
  then show ?case by simp
next
  case (2 pdq cs pl buf)
  then show ?case by simp
next
  case (3 pdq t cs pl buf)
  show ?case
  proof (intro allI impI)
    fix b :: string
    assume p: "0 \<le> pos pl"
    let ?pl = "pl\<lparr>pos := int (length b) + pos pl\<rparr>"
    let ?buf1 = "writeOutput (prefix pl) (Output t) buf"
    have wo: "writeOutput (prefix pl) (Output t) (b @ buf) = b @ ?buf1"
      by (simp add: writeOutput_eq)
    obtain rc buf2 where c: "walkChildren pdq cs (incrPrefix pl) ?buf1 = (rc, buf2)"
      by (cases "walkChildren pdq cs (incrPrefix pl) ?buf1") auto
    have "prefix (incrPrefix ?pl) = prefix (incrPrefix pl)"
      by (simp add: incrPrefix_def)
    then have ch: "walkChildren pdq cs (incrPrefix ?pl) (b @ ?buf1) = (rc, b @ buf2)"
      using 3 c by simp
    have dr: "drop (nat (int (length b) + pos pl)) (b @ buf2) = drop (nat (pos pl)) buf2"
      using p by (simp add: nat_add_distrib)
    have ps: "pos (incrPrefix ?pl) = int (length b) + pos pl" "pos (incrPrefix pl) = pos pl"
      by (simp_all add: incrPrefix_def)
    have neg: "\<not> int (length b) + pos pl < 0" "\<not> pos pl < 0"
      using p by simp_all
    show "walk pdq (Some (PrefixNode (Some t) cs)) ?pl (b @ buf) =
        (case walk pdq (Some (PrefixNode (Some t) cs)) pl buf of
           (r, pl', w) \<Rightarrow> (r, ?pl, b @ w))"
      by (cases rc) (simp_all add: Let_def wo ch c dr ps neg decrPrefix_incrPrefix del: drop_append)
  qed
next
  case (4 pdq pl buf)
  then show ?case by simp
next
  case (5 pdq nod nods pl buf)
  show ?case
  proof (intro allI impI)
    fix b :: string and pl' :: prefixLog
    assume pp: "prefix pl' = prefix pl"
    obtain r pl1 buf1 where w: "walk pdq nod (copy pl buf) buf = (r, pl1, buf1)"
      by (cases "walk pdq nod (copy pl buf) buf") auto
    have cp: "copy pl' (b @ buf) = (copy pl buf)\<lparr>pos := int (length b) + pos (copy pl buf)\<rparr>"
      using pp by (simp add: copy_def)
    have w': "walk pdq nod (copy pl' (b @ buf)) (b @ buf) = (r, copy pl' (b @ buf), b @ buf1)"
      using 5(1) w unfolding cp by (simp add: copy_def)
    show "walkChildren pdq (nod # nods) pl' (b @ buf) =
        (case walkChildren pdq (nod # nods) pl buf of (r, w) \<Rightarrow> (r, b @ w))"
    proof (cases r)
      case Panic
      then show ?thesis using w w' by simp
    next
      case NotOk
      have "walkChildren pdq nods pl' (b @ buf1) =
          (case walkChildren pdq nods pl buf1 of (r, w) \<Rightarrow> (r, b @ w))"
        using 5(2) w NotOk pp by simp
      then show ?thesis using w w' NotOk by simp
    next
      case (Ok child)
      have "walkChildren pdq nods pl' (b @ buf1) =
          (case walkChildren pdq nods pl buf1 of (r, w) \<Rightarrow> (r, b @ w))"
        using 5(3) w Ok pp by simp
      then show ?thesis using w w' Ok by (simp split: prod.splits option.splits)
    qed
  qed
qed

subsection \<open>The log that walk builds\<close>

lemma fold_min_Min: "fold min xs (m::nat) = Min (Set.insert m (set xs))"
proof (induction xs arbitrary: m)
  case Nil
  then show ?case by simp
next
  case (Cons x xs)
  have "Min (Set.insert (min x m) (set xs)) = Min (Set.insert m (Set.insert x (set xs)))"
  proof (cases "set xs = {}")
    case True
    then show ?thesis by (simp add: min.commute)
  next
    case False
    then show ?thesis by (simp add: Min_insert2 min.assoc min.left_commute min.commute)
  qed
  then show ?case using Cons by (simp add: insert_commute)
qed

lemma lessIndent_eq: "lessIndent = (\<lambda>a b. indentCount a < indentCount b)"
  by (simp add: lessIndent_def indentCount_def fun_eq_iff)

lemma buildLog_eq:
  "buildLog pdq all =
     concat (map (strip (minIndent (stringsOf all)))
       (filter (\<lambda>s. \<not> isResultActionRow s) (stringsOf all) @
        sort_Slice pdq lessIndent (rev (filter isResultActionRow (stringsOf all)))))"
proof -
  have "fold min (map (\<lambda>s. Count s whitespaceIndent) (rev (filter isResultActionRow (stringsOf all))))
          2147483647 = minIndent (stringsOf all)"
    by (simp add: fold_min_Min minIndent_def indentCount_def [abs_def])
  then show ?thesis
    by (simp add: buildLog_def Let_def scanMarks_eq strip_def [abs_def])
qed

lemma sort_Slice_small:
  "length xs \<le> 12 \<Longrightarrow> sort_Slice pdq lessIndent xs = sort_key indentCount xs"
  by (simp add: sort_Slice_def lessIndent_eq insertionSort_sort_key)

lemma sort_Slice_sorts:
  assumes "\<forall>xs. mset (pdq xs) = mset xs \<and> sorted (map indentCount (pdq xs))"
  shows "mset (sort_Slice pdq lessIndent xs) = mset xs \<and>
         sorted (map indentCount (sort_Slice pdq lessIndent xs))"
proof (cases "length xs \<le> 12")
  case True
  then show ?thesis by (simp add: sort_Slice_small)
next
  case False
  then show ?thesis using assms by (simp add: sort_Slice_def)
qed

lemma walk_Ok:
  assumes "walk pdq node pl buf = (Ok nt, pl', buf')"
  shows "\<exists>t cs. node = Some (PrefixNode (Some t) cs) \<and> pl' = pl \<and> 0 \<le> pos pl \<and>
           NValue nt = t\<lparr>Output := []\<rparr> \<and>
           Log nt = buildLog pdq (drop (nat (pos pl)) buf')"
proof (cases node)
  case None
  then show ?thesis using assms by simp
next
  case (Some n)
  obtain v cs where n: "n = PrefixNode v cs" by (cases n)
  show ?thesis
  proof (cases v)
    case None
    then show ?thesis using assms Some n by simp
  next
    case t: (Some t)
    have ps: "pos (incrPrefix pl) = pos pl" by (simp add: incrPrefix_def)
    show ?thesis
      using assms Some n t
      by (auto simp: Let_def decrPrefix_incrPrefix ps split: prod.splits option.splits if_splits)
  qed
qed

lemma minIndent_le:
  "row \<in> set lines \<Longrightarrow> isResultActionRow row \<Longrightarrow> minIndent lines \<le> indentCount row"
  by (simp add: minIndent_def)

lemma indentCount_strip: "indentCount (strip mx row) = indentCount row - mx"
  by (simp add: indentCount_def strip_def Count_Replace)

lemma walk_Some_eq:
  "walk pdq (Some (PrefixNode (Some t) cs)) pl buf =
     (case walkChildren pdq cs \<lparr>prefix = prefix pl @ whitespaceIndent, pos = pos pl\<rparr>
             (buf @ concat (map (emit (prefix pl)) (Output t))) of
        (None, buf2) \<Rightarrow> (Panic, pl, buf2)
      | (Some children, buf2) \<Rightarrow>
          if pos pl < 0 then (NotOk, pl, buf2)
          else (Ok (NestedTest (t\<lparr>Output := []\<rparr>) children
                      (buildLog pdq (drop (nat (pos pl)) buf2))), pl, buf2))"
proof -
  have i: "incrPrefix pl = \<lparr>prefix = prefix pl @ whitespaceIndent, pos = pos pl\<rparr>"
    by (simp add: incrPrefix_def)
  have d: "decrPrefix \<lparr>prefix = prefix pl @ whitespaceIndent, pos = pos pl\<rparr> = pl"
    using decrPrefix_incrPrefix [of pl] by (simp add: i)
  show ?thesis
    by (simp add: Let_def i d writeOutput_eq split: prod.splits option.splits)
qed

lemma walk_fresh:
  "walk pdq nod \<lparr>prefix = p, pos = int (length b)\<rparr> b =
     (case walk pdq nod \<lparr>prefix = p, pos = 0\<rparr> [] of
        (r, pl', w) \<Rightarrow> (r, \<lparr>prefix = p, pos = int (length b)\<rparr>, b @ w))"
  using walk_shift_aux(1) [of "\<lparr>prefix = p, pos = 0\<rparr>" pdq nod "[]"] by simp

subsection \<open>The trie\<close>

lemma childTests_append: "childTests (xs @ ys) = childTests xs @ childTests ys"
proof (induction xs)
  case Nil
  then show ?case by simp
next
  case (Cons x xs)
  then show ?case by (cases x) simp_all
qed

lemma childKeys_append: "childKeys (xs @ ys) = childKeys xs @ childKeys ys"
proof (induction xs)
  case Nil
  then show ?case by simp
next
  case (Cons x xs)
  then show ?case by (cases x) simp_all
qed

lemma keys_tests:
  "filter (\<lambda>k. k \<noteq> None) (nodeKeys p) = map (\<lambda>t. Some (Key t)) (nodeTests p)"
  "filter (\<lambda>k. k \<noteq> None) (childKeys cs) = map (\<lambda>t. Some (Key t)) (childTests cs)"
  by (induction p and cs rule: nodeKeys_childKeys.induct) (auto split: option.splits)

lemma Some_in_keys: "Some k \<in> set (nodeKeys p) \<longleftrightarrow> k \<in> Key ` set (nodeTests p)"
proof -
  have "Some k \<in> set (nodeKeys p) \<longleftrightarrow> Some k \<in> set (filter (\<lambda>k. k \<noteq> None) (nodeKeys p))"
    by simp
  also have "\<dots> \<longleftrightarrow> k \<in> Key ` set (nodeTests p)"
    unfolding keys_tests by auto
  finally show ?thesis .
qed

lemma distinct_keys_tests:
  assumes "distinct (nodeKeys p)"
  shows "distinct (map Key (nodeTests p))"
proof -
  from assms have "distinct (filter (\<lambda>k. k \<noteq> None) (nodeKeys p))"
    by (rule distinct_filter)
  then have "distinct (map (\<lambda>t. Some (Key t)) (nodeTests p))"
    by (simp only: keys_tests)
  moreover have "map (\<lambda>t. Some (Key t)) (nodeTests p) = map Some (map Key (nodeTests p))"
    by simp
  ultimately have "distinct (map Some (map Key (nodeTests p)))"
    by (simp only:)
  then show ?thesis
    by (simp only: distinct_map)
qed

lemma replicate_mset_plus:
  "replicate_mset (m + n) x = replicate_mset m x + replicate_mset n x"
  by (induction m) simp_all

lemma find_None_iff: "find p key = None \<longleftrightarrow> key \<notin> Key ` set (nodeTests p)"
  by (auto simp: find_def find_None_iff)

lemma find_Some_iff:
  "distinct (map Key (nodeTests p)) \<Longrightarrow>
   find p key = Some t \<longleftrightarrow> t \<in> set (nodeTests p) \<and> Key t = key"
proof -
  have gen: "distinct (map Key ts) \<Longrightarrow>
      List.find (\<lambda>t. Key t = key) ts = Some t \<longleftrightarrow> t \<in> set ts \<and> Key t = key" for ts
    by (induction ts) auto
  show "distinct (map Key (nodeTests p)) \<Longrightarrow> ?thesis"
    by (simp add: find_def gen)
qed

lemma addChild_keys:
  "mset (nodeKeys (addChild parent t p)) =
     mset (nodeKeys p) + replicate_mset (count (mset (nodeKeys p)) parent) (Some (Key t))"
  "mset (childKeys (addChildren parent t cs)) =
     mset (childKeys cs) + replicate_mset (count (mset (childKeys cs)) parent) (Some (Key t))"
  by (induction parent t p and parent t cs rule: addChild_addChildren.induct)
    (auto simp: replicate_mset_plus childKeys_append)

lemma addChild_tests:
  "mset (nodeTests (addChild parent t p)) =
     mset (nodeTests p) + replicate_mset (count (mset (nodeKeys p)) parent) t"
  "mset (childTests (addChildren parent t cs)) =
     mset (childTests cs) + replicate_mset (count (mset (childKeys cs)) parent) t"
  by (induction parent t p and parent t cs rule: addChild_addChildren.induct)
    (auto simp: replicate_mset_plus childTests_append split: option.splits)

lemma map_option_modify:
  "(\<And>t. Key (f t) = Key t) \<Longrightarrow>
   map_option Key (map_option (\<lambda>t. if Key t = key then f t else t) v) = map_option Key v"
  by (cases v) simp_all

lemma modify_keys:
  "\<forall>t. Key (f t) = Key t \<Longrightarrow> nodeKeys (modify key f p) = nodeKeys p"
  "\<forall>t. Key (f t) = Key t \<Longrightarrow> childKeys (modifyChildren key f cs) = childKeys cs"
  by (induction key f p and key f cs rule: modify_modifyChildren.induct)
    (simp_all add: map_option_modify)

lemma modify_tests:
  "nodeTests (modify key f p) = map (\<lambda>t. if Key t = key then f t else t) (nodeTests p)"
  "childTests (modifyChildren key f cs) = map (\<lambda>t. if Key t = key then f t else t) (childTests cs)"
  by (induction key f p and key f cs rule: modify_modifyChildren.induct)
    (auto split: option.splits)

lemma Value_addChild: "Value (addChild parent t p) = Value p"
  by (cases p) simp

lemma Value_modify_None: "Value p = None \<Longrightarrow> Value (modify key f p) = None"
  by (cases p) simp

lemma None_in_keys: "Value p = None \<Longrightarrow> None \<in> set (nodeKeys p)"
  by (cases p) simp

lemma ensure_props:
  assumes inv: "trieInv p" and par: "parent \<in> set (nodeKeys p)"
  shows "trieInv (ensure parent t p)"
    and "Some (Key t) \<in> set (nodeKeys (ensure parent t p))"
    and "mset (nodeKeys (ensure parent t p)) =
           mset (nodeKeys p) + (if Some (Key t) \<in> set (nodeKeys p) then {#} else {#Some (Key t)#})"
    and "mset (nodeTests (ensure parent t p)) =
           mset (nodeTests p) + (if Some (Key t) \<in> set (nodeKeys p) then {#} else {#t#})"
proof -
  have d: "distinct (nodeKeys p)" and v: "Value p = None"
    using inv by (simp_all add: trieInv_def)
  have c: "count (mset (nodeKeys p)) parent = 1"
    using d par by (simp add: distinct_count_atmost_1)
  have f: "find p (Key t) = None \<longleftrightarrow> Some (Key t) \<notin> set (nodeKeys p)"
    by (simp add: find_None_iff Some_in_keys)
  show k: "mset (nodeKeys (ensure parent t p)) =
           mset (nodeKeys p) + (if Some (Key t) \<in> set (nodeKeys p) then {#} else {#Some (Key t)#})"
    using f c by (simp add: ensure_def addChild_keys)
  show "mset (nodeTests (ensure parent t p)) =
           mset (nodeTests p) + (if Some (Key t) \<in> set (nodeKeys p) then {#} else {#t#})"
    using f c by (simp add: ensure_def addChild_tests)
  have s: "set (nodeKeys (ensure parent t p)) = Set.insert (Some (Key t)) (set (nodeKeys p))"
    using arg_cong [OF k, of set_mset] by (auto split: if_splits)
  then show "Some (Key t) \<in> set (nodeKeys (ensure parent t p))"
    by simp
  have "count (mset (nodeKeys (ensure parent t p))) a =
      (if a \<in> set (nodeKeys (ensure parent t p)) then 1 else 0)" for a
    using d unfolding k s by (auto simp: distinct_count_atmost_1)
  then have "distinct (nodeKeys (ensure parent t p))"
    unfolding distinct_count_atmost_1 by blast
  then show "trieInv (ensure parent t p)"
    using v by (simp add: trieInv_def ensure_def Value_addChild)
qed

lemma insertPath_snoc:
  "insertPath parent (ts @ [t]) p =
     ensure (if ts = [] then parent else Some (Key (last ts))) t (insertPath parent ts p)"
  by (induction ts arbitrary: parent p) auto

lemma insertPath_props:
  assumes "trieInv p" and "parent \<in> set (nodeKeys p)"
  shows "trieInv (insertPath parent ts p) \<and>
         set (nodeKeys p) \<subseteq> set (nodeKeys (insertPath parent ts p)) \<and>
         set (nodeKeys (insertPath parent ts p)) \<subseteq> set (nodeKeys p) \<union> (\<lambda>t. Some (Key t)) ` set ts \<and>
         (\<lambda>t. Some (Key t)) ` set ts \<subseteq> set (nodeKeys (insertPath parent ts p)) \<and>
         mset (nodeTests p) \<subseteq># mset (nodeTests (insertPath parent ts p))"
  using assms
proof (induction ts arbitrary: parent p)
  case Nil
  then show ?case by simp
next
  case (Cons t ts)
  let ?p = "ensure parent t p"
  have inv: "trieInv ?p" and key: "Some (Key t) \<in> set (nodeKeys ?p)"
    using ensure_props(1,2) [OF Cons.prems] by blast+
  have ks: "set (nodeKeys ?p) = Set.insert (Some (Key t)) (set (nodeKeys p))"
    using arg_cong [OF ensure_props(3) [OF Cons.prems, of t], of set_mset]
    by (auto split: if_splits)
  have ts: "mset (nodeTests p) \<subseteq># mset (nodeTests ?p)"
    using ensure_props(4) [OF Cons.prems, of t] by simp
  show ?case
    using Cons.IH [OF inv key] ks ts by (auto intro: subset_mset.order_trans)
qed

lemma pathNames_butlast: "n \<in> set (butlast (pathNames name)) \<Longrightarrow> length n < length name"
  by (auto simp: pathNames_def)

lemma Key_newTest [simp]: "Key (newTest n pkg) = pkg @ ''/'' @ n"
  by (simp add: Key_def newTest_def)

lemma insert_props:
  assumes inv: "trieInv p" and nf: "find p (Key obj) = None"
  shows "trieInv (insert obj p)"
    and "obj \<in> set (nodeTests (insert obj p))"
    and "mset (nodeTests p) \<subseteq># mset (nodeTests (insert obj p))"
proof -
  define phs where "phs = map (\<lambda>n. newTest n (Package obj)) (butlast (pathNames (Name obj)))"
  define parent where "parent = (if phs = [] then None else Some (Key (last phs)))"
  define p1 where "p1 = insertPath None phs p"
  have root: "None \<in> set (nodeKeys p)"
    using inv by (simp add: trieInv_def None_in_keys)
  have p1: "trieInv p1" "set (nodeKeys p1) \<subseteq> set (nodeKeys p) \<union> (\<lambda>t. Some (Key t)) ` set phs"
    "set (nodeKeys p) \<subseteq> set (nodeKeys p1)"
    "(\<lambda>t. Some (Key t)) ` set phs \<subseteq> set (nodeKeys p1)"
    "mset (nodeTests p) \<subseteq># mset (nodeTests p1)"
    using insertPath_props [OF inv root, of phs] by (simp_all add: p1_def)
  have ins: "insert obj p = ensure parent obj p1"
    by (simp only: insert_def insertPath_snoc phs_def parent_def p1_def)
  have par: "parent \<in> set (nodeKeys p1)"
  proof (cases "phs = []")
    case True
    then show ?thesis using root p1(3) by (auto simp: parent_def)
  next
    case False
    then have "last phs \<in> set phs" by (rule last_in_set)
    then have "Some (Key (last phs)) \<in> (\<lambda>t. Some (Key t)) ` set phs" by (rule imageI)
    then show ?thesis using p1(4) False by (auto simp: parent_def)
  qed
  have "Key obj \<noteq> Key ph" if ph: "ph \<in> set phs" for ph
  proof -
    obtain n where n: "n \<in> set (butlast (pathNames (Name obj)))" "ph = newTest n (Package obj)"
      using ph by (auto simp: phs_def)
    then have "n \<noteq> Name obj" using pathNames_butlast by fastforce
    then show ?thesis using n by (simp add: Key_def newTest_def)
  qed
  moreover have "Some (Key obj) \<notin> set (nodeKeys p)"
    using nf by (simp add: find_None_iff Some_in_keys)
  ultimately have absent: "Some (Key obj) \<notin> set (nodeKeys p1)"
    using p1(2) by auto
  show "trieInv (insert obj p)"
    unfolding ins using p1(1) par by (rule ensure_props(1))
  have m: "mset (nodeTests (insert obj p)) = mset (nodeTests p1) + {#obj#}"
    unfolding ins using ensure_props(4) [OF p1(1) par, of obj] absent by simp
  have "set_mset (mset (nodeTests (insert obj p))) = set_mset (mset (nodeTests p1) + {#obj#})"
    by (simp only: m)
  then show "obj \<in> set (nodeTests (insert obj p))"
    by simp
  show "mset (nodeTests p) \<subseteq># mset (nodeTests (insert obj p))"
    using p1(5) m by (auto simp: subseteq_mset_def intro: le_SucI)
qed

lemma Key_Update [simp]: "Key (Update tc row) = Key tc"
  by (simp add: Update_def Key_def)


lemma aggregate_props:
  assumes inv: "trieInv p"
  shows "trieInv (aggregate row p)"
    and "TestName row \<noteq> [] \<Longrightarrow>
         find (aggregate row p) (rowPackage row @ ''/'' @ TestName row) =
           Some (Update (case find p (rowPackage row @ ''/'' @ TestName row) of
                           Some tc \<Rightarrow> tc
                         | None \<Rightarrow> newTest (TestName row) (rowPackage row)) row)"
    and "find p (rowPackage row @ ''/'' @ TestName row) \<noteq> None \<Longrightarrow>
         map Key (nodeTests (aggregate row p)) = map Key (nodeTests p)"
    and "t \<in> set (nodeTests p) \<Longrightarrow> Key t \<noteq> rowPackage row @ ''/'' @ TestName row \<Longrightarrow>
         t \<in> set (nodeTests (aggregate row p))"
    and "Key ` set (nodeTests p) \<subseteq> Key ` set (nodeTests (aggregate row p))"
proof -
  define key where "key = rowPackage row @ ''/'' @ TestName row"
  let ?obj = "newTest (TestName row) (rowPackage row)"
  define pX where "pX = (case find p key of Some tc \<Rightarrow> p | None \<Rightarrow> insert ?obj p)"
  define tc0 where "tc0 = (case find p key of Some tc \<Rightarrow> tc | None \<Rightarrow> ?obj)"
  define g where "g = (\<lambda>t. if Key t = key then Update t row else t)"
  have kobj: "Key ?obj = key"
    by (simp add: key_def)
  have d: "distinct (map Key (nodeTests p))"
    using inv by (simp add: trieInv_def distinct_keys_tests)
  have X: "trieInv pX \<and> tc0 \<in> set (nodeTests pX) \<and> Key tc0 = key \<and>
           mset (nodeTests p) \<subseteq># mset (nodeTests pX)"
  proof (cases "find p key")
    case None
    then have "find p (Key ?obj) = None" by (simp add: key_def)
    from insert_props [OF inv this] show ?thesis
      using None kobj by (simp add: pX_def tc0_def)
  next
    case (Some tc)
    then have "tc \<in> set (nodeTests p) \<and> Key tc = key"
      using find_Some_iff [OF d] by simp
    then show ?thesis
      using Some inv by (simp add: pX_def tc0_def)
  qed
  have agg: "TestName row \<noteq> [] \<Longrightarrow> aggregate row p = modify key (\<lambda>tc. Update tc row) pX"
    by (simp add: aggregate_def Let_def key_def pX_def)
  have agg0: "TestName row = [] \<Longrightarrow> aggregate row p = p"
    by (simp add: aggregate_def)
  have mk: "nodeKeys (modify key (\<lambda>tc. Update tc row) pX) = nodeKeys pX"
    by (rule modify_keys(1)) simp
  have mt: "nodeTests (modify key (\<lambda>tc. Update tc row) pX) = map g (nodeTests pX)"
    by (simp add: modify_tests g_def)
  have kg: "Key (g t) = Key t" for t
    by (simp add: g_def)
  have invm: "trieInv (modify key (\<lambda>tc. Update tc row) pX)"
    using X by (simp add: trieInv_def mk Value_modify_None)
  show "trieInv (aggregate row p)"
    using invm inv agg agg0 by (cases "TestName row = []") simp_all
  have sub: "set (nodeTests p) \<subseteq> set (nodeTests pX)"
    using X by (meson mset_subset_eqD set_mset_mset subsetI in_multiset_in_set)
  show "find (aggregate row p) (rowPackage row @ ''/'' @ TestName row) =
           Some (Update (case find p (rowPackage row @ ''/'' @ TestName row) of
                           Some tc \<Rightarrow> tc
                         | None \<Rightarrow> newTest (TestName row) (rowPackage row)) row)"
    if ne: "TestName row \<noteq> []"
  proof -
    have dm: "distinct (map Key (nodeTests (modify key (\<lambda>tc. Update tc row) pX)))"
      using invm by (simp add: trieInv_def distinct_keys_tests)
    have "g tc0 \<in> set (map g (nodeTests pX))"
      using X by simp
    then have "Update tc0 row \<in> set (nodeTests (modify key (\<lambda>tc. Update tc row) pX))"
      using X by (simp add: mt g_def)
    then have "find (modify key (\<lambda>tc. Update tc row) pX) key = Some (Update tc0 row)"
      using find_Some_iff [OF dm] X by simp
    then show ?thesis
      using agg [OF ne] by (simp add: key_def tc0_def)
  qed
  show "map Key (nodeTests (aggregate row p)) = map Key (nodeTests p)"
    if "find p (rowPackage row @ ''/'' @ TestName row) \<noteq> None"
  proof (cases "TestName row = []")
    case True
    then show ?thesis by (simp add: agg0)
  next
    case False
    have "map Key (nodeTests (modify key (\<lambda>tc. Update tc row) pX)) = map Key (nodeTests pX)"
      by (simp add: mt kg comp_def)
    moreover have "pX = p" using that by (auto simp: pX_def key_def)
    ultimately show ?thesis using agg [OF False] by simp
  qed
  show "t \<in> set (nodeTests (aggregate row p))"
    if "t \<in> set (nodeTests p)" "Key t \<noteq> rowPackage row @ ''/'' @ TestName row"
  proof (cases "TestName row = []")
    case True
    then show ?thesis using that by (simp add: agg0)
  next
    case False
    have "t \<in> set (nodeTests pX)" using that sub by blast
    moreover have "g t = t" using that by (simp add: g_def key_def)
    ultimately have "t \<in> g ` set (nodeTests pX)" by force
    then show ?thesis using agg [OF False] by (simp add: mt)
  qed
  show "Key ` set (nodeTests p) \<subseteq> Key ` set (nodeTests (aggregate row p))"
  proof (cases "TestName row = []")
    case True
    then show ?thesis by (simp add: agg0)
  next
    case False
    have "Key ` set (nodeTests (aggregate row p)) = Key ` set (nodeTests pX)"
      using agg [OF False] by (simp add: mt image_image kg)
    then show ?thesis using sub by blast
  qed
qed

lemma trieOf_snoc: "trieOf (rows @ [row]) = aggregate row (trieOf rows)"
  by (simp add: trieOf_def)

lemma trieOf_props:
  "trieInv (trieOf rows) \<and>
   (\<forall>r \<in> set rows. TestName r \<noteq> [] \<longrightarrow>
      rowPackage r @ ''/'' @ TestName r \<in> Key ` set (nodeTests (trieOf rows)))"
proof (induction rows rule: rev_induct)
  case Nil
  then show ?case by (simp add: trieOf_def trieInv_def)
next
  case (snoc row rows)
  then have inv: "trieInv (trieOf rows)" by simp
  have f: "find (aggregate row (trieOf rows)) (rowPackage row @ ''/'' @ TestName row) \<noteq> None"
    if "TestName row \<noteq> []"
    using aggregate_props(2) [OF inv that] by simp
  show ?case
    using snoc aggregate_props(1,5) [OF inv, of row] f
    by (auto simp: trieOf_snoc find_None_iff)
qed

lemma readLoop_all:
  "\<forall>j < length lines. ctx (i + j) = None \<Longrightarrow>
   readLoop unmarshal ctx i lines errs p =
     Inr (errs @ decodeErrors unmarshal lines,
          foldl (\<lambda>p row. aggregate row p) p (rowsOf unmarshal lines))"
proof (induction lines arbitrary: i errs p)
  case Nil
  then show ?case by (simp add: decodeErrors_def rowsOf_def)
next
  case (Cons line lines)
  have c0: "ctx i = None" using Cons.prems by force
  have "\<forall>j < length lines. ctx (Suc i + j) = None"
    using Cons.prems by force
  from Cons.IH [OF this] c0 show ?case
    by (cases "unmarshal line") (auto simp: decodeErrors_def rowsOf_def split: option.splits)
qed

lemma readLoop_cancel:
  "k < length lines \<Longrightarrow> \<forall>j < k. ctx (i + j) = None \<Longrightarrow> ctx (i + k) = Some e \<Longrightarrow>
   readLoop unmarshal ctx i lines errs p = Inl e"
proof (induction lines arbitrary: i k errs p)
  case Nil
  then show ?case by simp
next
  case (Cons line lines)
  show ?case
  proof (cases k)
    case 0
    then show ?thesis using Cons.prems by simp
  next
    case (Suc k')
    have c0: "ctx i = None" using Cons.prems(2) Suc by force
    have "k' < length lines" using Cons.prems(1) Suc by simp
    moreover have "\<forall>j < k'. ctx (Suc i + j) = None" using Cons.prems(2) Suc by force
    moreover have "ctx (Suc i + k') = Some e" using Cons.prems(3) Suc by simp
    ultimately have "readLoop unmarshal ctx (Suc i) lines errs' p' = Inl e" for errs' p'
      by (rule Cons.IH)
    then show ?thesis using c0 by (simp split: prod.splits)
  qed
qed

lemma walk_valued:
  "\<forall>n. node = Some n \<longrightarrow> None \<notin> set (nodeKeys n) \<longrightarrow> 0 \<le> pos pl \<longrightarrow>
     (\<exists>nt. fst (walk pdq node pl buf) = Ok nt \<and> flatten nt = map clearOutput (nodeTests n))"
  "None \<notin> set (childKeys nods) \<longrightarrow>
     (\<exists>nts. fst (walkChildren pdq nods pl buf) = Some nts \<and>
            flattenAll nts = map clearOutput (childTests nods))"
proof (induction pdq node pl buf and pdq nods pl buf rule: walk_walkChildren.induct)
  case (1 pdq pl buf)
  then show ?case by simp
next
  case (2 pdq cs pl buf)
  then show ?case by simp
next
  case (3 pdq t cs pl buf)
  show ?case
  proof (intro allI impI)
    fix n
    assume n: "Some (PrefixNode (Some t) cs) = Some n" and k: "None \<notin> set (nodeKeys n)"
      and p: "0 \<le> pos pl"
    have "None \<notin> set (childKeys cs)" using n k by auto
    then obtain nts where
      "fst (walkChildren pdq cs (incrPrefix pl) (writeOutput (prefix pl) (Output t) buf)) = Some nts"
      "flattenAll nts = map clearOutput (childTests cs)"
      using 3 by blast
    then show "\<exists>nt. fst (walk pdq (Some (PrefixNode (Some t) cs)) pl buf) = Ok nt \<and>
        flatten nt = map clearOutput (nodeTests n)"
      using n p by (auto simp: Let_def incrPrefix_def clearOutput_def split: prod.splits)
  qed
next
  case (4 pdq pl buf)
  then show ?case by simp
next
  case (5 pdq nod nods pl buf)
  show ?case
  proof
    assume k: "None \<notin> set (childKeys (nod # nods))"
    obtain r pl' buf1 where w: "walk pdq nod (copy pl buf) buf = (r, pl', buf1)"
      by (cases "walk pdq nod (copy pl buf) buf") auto
    show "\<exists>nts. fst (walkChildren pdq (nod # nods) pl buf) = Some nts \<and>
        flattenAll nts = map clearOutput (childTests (nod # nods))"
    proof (cases nod)
      case None
      then have r: "r = NotOk" using w by simp
      have "None \<notin> set (childKeys nods)" using k None by simp
      then obtain nts where "fst (walkChildren pdq nods pl buf1) = Some nts"
        "flattenAll nts = map clearOutput (childTests nods)"
        using 5(2) w r by fastforce
      then show ?thesis using w r None by auto
    next
      case (Some n)
      have kn: "None \<notin> set (nodeKeys n)" and ks: "None \<notin> set (childKeys nods)"
        using k Some by simp_all
      have "0 \<le> pos (copy pl buf)" by (simp add: copy_def)
      then obtain nt where nt: "r = Ok nt" "flatten nt = map clearOutput (nodeTests n)"
        using 5(1) Some kn w by fastforce
      obtain nts where "fst (walkChildren pdq nods pl buf1) = Some nts"
        "flattenAll nts = map clearOutput (childTests nods)"
        using 5(3) w nt(1) ks by fastforce
      then show ?thesis using w nt Some by (auto split: prod.splits)
    qed
  qed
qed

lemma walkAll_valued:
  "None \<notin> set (childKeys nods) \<Longrightarrow>
   \<exists>nts. walkAll pdq nods = Some nts \<and> flattenAll nts = map clearOutput (childTests nods)"
proof (induction nods)
  case Nil
  then show ?case by simp
next
  case (Cons nod nods)
  show ?case
  proof (cases nod)
    case None
    then show ?thesis using Cons by simp
  next
    case (Some n)
    have kn: "None \<notin> set (nodeKeys n)" and ks: "None \<notin> set (childKeys nods)"
      using Cons.prems Some by simp_all
    have "0 \<le> pos newPrefixLog" by (simp add: newPrefixLog_def)
    then obtain nt where nt: "fst (walk pdq (Some n) newPrefixLog []) = Ok nt"
      "flatten nt = map clearOutput (nodeTests n)"
      using walk_valued(1) [of "Some n" newPrefixLog pdq "[]"] kn by blast
    obtain nts where "walkAll pdq nods = Some nts" "flattenAll nts = map clearOutput (childTests nods)"
      using Cons.IH [OF ks] by blast
    then show ?thesis using nt Some by (auto split: prod.splits)
  qed
qed

lemma trieInv_children:
  assumes "trieInv p"
  shows "None \<notin> set (childKeys (Children p))" and "childTests (Children p) = nodeTests p"
proof -
  obtain v cs where p: "p = PrefixNode v cs" by (cases p)
  then have "v = None" using assms by (simp add: trieInv_def)
  then show "None \<notin> set (childKeys (Children p))" and "childTests (Children p) = nodeTests p"
    using assms p by (simp_all add: trieInv_def)
qed

lemma ReadAll_all:
  assumes "\<forall>i < length lines. ctx i = None"
  shows "\<exists>tests. ReadAll pdq unmarshal ctx lines =
           Returned \<lparr>Err = errors_Join (decodeErrors unmarshal lines), Tests = tests\<rparr> None \<and>
         walkAll pdq (Children (trieOf (rowsOf unmarshal lines))) = Some tests \<and>
         flattenAll tests = map clearOutput (nodeTests (trieOf (rowsOf unmarshal lines)))"
proof -
  have r: "readLoop unmarshal ctx 0 lines [] (PrefixNode None []) =
      Inr (decodeErrors unmarshal lines, trieOf (rowsOf unmarshal lines))"
    using readLoop_all [of lines ctx 0 unmarshal "[]"] assms by (simp add: trieOf_def)
  have inv: "trieInv (trieOf (rowsOf unmarshal lines))"
    using trieOf_props by blast
  obtain tests where "walkAll pdq (Children (trieOf (rowsOf unmarshal lines))) = Some tests"
    "flattenAll tests = map clearOutput (nodeTests (trieOf (rowsOf unmarshal lines)))"
    using walkAll_valued [OF trieInv_children(1) [OF inv], of pdq] trieInv_children(2) [OF inv]
    by auto
  then show ?thesis
    by (simp add: ReadAll_def r)
qed

lemma decodeErrors_empty:
  "decodeErrors unmarshal lines = [] \<longleftrightarrow> (\<forall>line \<in> set lines. fst (unmarshal line) = None)"
  by (induction lines) (auto simp: decodeErrors_def split: option.splits)

lemma foldl_aggregate_filter:
  "foldl (\<lambda>p row. aggregate row p) p rows =
   foldl (\<lambda>p row. aggregate row p) p (filter (\<lambda>row. TestName row \<noteq> []) rows)"
  by (induction rows arbitrary: p) (simp_all add: aggregate_def)

subsection \<open>The result tree as a function of the trie\<close>

lemma buildLog_logOf: "buildLog pdq all = logOf pdq all"
  by (simp add: buildLog_eq logOf_def Let_def)

lemma walk_rebuild:
  "\<forall>n. node = Some n \<longrightarrow> None \<notin> set (nodeKeys n) \<longrightarrow> pos pl = int (length buf) \<longrightarrow>
     (\<exists>nt. rebuild pdq (prefix pl) n = [nt] \<and>
           walk pdq node pl buf = (Ok nt, pl, buf @ written (prefix pl) n))"
  "None \<notin> set (childKeys nods) \<longrightarrow>
     walkChildren pdq nods pl buf =
       (Some (rebuildAll pdq (prefix pl) nods), buf @ writtenAll (prefix pl) nods)"
proof (induction pdq node pl buf and pdq nods pl buf rule: walk_walkChildren.induct)
  case (1 pdq pl buf)
  then show ?case by simp
next
  case (2 pdq cs pl buf)
  then show ?case by simp
next
  case (3 pdq t cs pl buf)
  show ?case
  proof (intro allI impI)
    fix n
    assume n: "Some (PrefixNode (Some t) cs) = Some n" and k: "None \<notin> set (nodeKeys n)"
      and p: "pos pl = int (length buf)"
    have kc: "None \<notin> set (childKeys cs)" using n k by auto
    have ch: "walkChildren pdq cs (incrPrefix pl) (writeOutput (prefix pl) (Output t) buf) =
        (Some (rebuildAll pdq (prefix pl @ whitespaceIndent) cs),
         buf @ concat (map (emit (prefix pl)) (Output t)) @
           writtenAll (prefix pl @ whitespaceIndent) cs)"
      using 3 kc by (simp add: incrPrefix_def writeOutput_eq)
    have ps: "pos (incrPrefix pl) = int (length buf)"
      using p by (simp add: incrPrefix_def)
    have dr: "drop (length buf) (buf @ w) = w" for w :: string
      by simp
    show "\<exists>nt. rebuild pdq (prefix pl) n = [nt] \<and>
        walk pdq (Some (PrefixNode (Some t) cs)) pl buf = (Ok nt, pl, buf @ written (prefix pl) n)"
      using n by (auto simp: Let_def ch ps dr decrPrefix_incrPrefix buildLog_logOf clearOutput_def
          simp del: drop_append)
  qed
next
  case (4 pdq pl buf)
  then show ?case by simp
next
  case (5 pdq nod nods pl buf)
  show ?case
  proof
    assume k: "None \<notin> set (childKeys (nod # nods))"
    show "walkChildren pdq (nod # nods) pl buf =
        (Some (rebuildAll pdq (prefix pl) (nod # nods)), buf @ writtenAll (prefix pl) (nod # nods))"
    proof (cases nod)
      case None
      have ks: "None \<notin> set (childKeys nods)" using k None by simp
      have w: "walk pdq nod (copy pl buf) buf = (NotOk, copy pl buf, buf)"
        using None by simp
      have "walkChildren pdq nods pl buf =
          (Some (rebuildAll pdq (prefix pl) nods), buf @ writtenAll (prefix pl) nods)"
        using 5(2) [OF w [symmetric] refl refl] ks by simp
      then show ?thesis using w None by simp
    next
      case (Some n)
      have kn: "None \<notin> set (nodeKeys n)" and ks: "None \<notin> set (childKeys nods)"
        using k Some by simp_all
      have "pos (copy pl buf) = int (length buf)" by (simp add: copy_def)
      then obtain nt where nt: "rebuild pdq (prefix pl) n = [nt]"
        "walk pdq nod (copy pl buf) buf = (Ok nt, copy pl buf, buf @ written (prefix pl) n)"
        using 5(1) Some kn by (fastforce simp: copy_def)
      have "walkChildren pdq nods pl (buf @ written (prefix pl) n) =
          (Some (rebuildAll pdq (prefix pl) nods),
           (buf @ written (prefix pl) n) @ writtenAll (prefix pl) nods)"
        using 5(3) [OF nt(2) [symmetric] refl refl] ks by simp
      then show ?thesis using nt Some by simp
    qed
  qed
qed

lemma walkAll_rebuild:
  "None \<notin> set (childKeys nods) \<Longrightarrow> walkAll pdq nods = Some (rebuildAll pdq [] nods)"
proof (induction nods)
  case Nil
  then show ?case by simp
next
  case (Cons nod nods)
  show ?case
  proof (cases nod)
    case None
    then show ?thesis using Cons by simp
  next
    case (Some n)
    have kn: "None \<notin> set (nodeKeys n)" and ks: "None \<notin> set (childKeys nods)"
      using Cons.prems Some by simp_all
    have "pos newPrefixLog = int (length ([] :: string))" by (simp add: newPrefixLog_def)
    then obtain nt where nt: "rebuild pdq (prefix newPrefixLog) n = [nt]"
      "walk pdq (Some n) newPrefixLog [] = (Ok nt, newPrefixLog, [] @ written (prefix newPrefixLog) n)"
      using walk_rebuild(1) [of "Some n" newPrefixLog "[]" pdq] kn by blast
    then show ?thesis using Cons.IH [OF ks] Some by (simp add: newPrefixLog_def)
  qed
qed

lemma rowsOf_filter:
  "rowsOf unmarshal (filter (\<lambda>line. TestName (snd (unmarshal line)) \<noteq> []) lines) =
   filter (\<lambda>row. TestName row \<noteq> []) (rowsOf unmarshal lines)"
  by (simp add: rowsOf_def filter_map comp_def)

section \<open>The line classifier\<close>

text \<open>
  C3: for every string, the classifier of walk answers true exactly when the string
  contains "---" and contains one of "FAIL", "PASS", "SKIP" as a substring, anywhere and
  in any order; every other string is a narrative line.
\<close>

theorem isResultActionRow_iff:
  "isResultActionRow s \<longleftrightarrow>
     (\<exists>a b. s = a @ ''---'' @ b) \<and>
     ((\<exists>a b. s = a @ ''FAIL'' @ b) \<or> (\<exists>a b. s = a @ ''PASS'' @ b) \<or>
      (\<exists>a b. s = a @ ''SKIP'' @ b))"
  unfolding isResultActionRow_def Let_def Contains_sublist ToUpper_Action sublist_def
  by (rule refl)

section \<open>The order of the lines of a log\<close>

text \<open>
  C1 (as the code has it): for every node that walk returns ok for, the log is the
  narrative lines of the node's slice of the buffer in their original order, followed by
  its result lines; the result lines are those sort.Slice returns for the reversed list
  of result lines (the loop collects them from the end backwards), so they stand in
  ascending order of their indentation-unit count and a line of count 1 precedes a line
  of count 2 whatever the order in the buffer. For at most 12 result lines the sort is an
  insertion sort and ties come out in the reverse of their original order; for more, ties
  come out as sort.Slice leaves them. The indentation-unit count is the number of
  non-overlapping instances of the indent unit anywhere in the line.
\<close>

theorem walk_log_order:
  assumes "walk pdq node pl buf = (Ok nt, pl', buf')"
  shows "let lines = stringsOf (drop (nat (pos pl)) buf');
             narrative = filter (\<lambda>s. \<not> isResultActionRow s) lines;
             results = filter isResultActionRow lines
         in \<exists>marks.
              Log nt = concat (map (strip (minIndent lines)) (narrative @ marks)) \<and>
              marks = sort_Slice pdq lessIndent (rev results) \<and>
              (length results \<le> 12 \<longrightarrow> marks = sort_key indentCount (rev results)) \<and>
              ((\<forall>xs. mset (pdq xs) = mset xs \<and> sorted (map indentCount (pdq xs))) \<longrightarrow>
                 mset marks = mset results \<and> sorted (map indentCount marks))"
proof -
  define lines where "lines = stringsOf (drop (nat (pos pl)) buf')"
  define results where "results = filter isResultActionRow lines"
  define marks where "marks = sort_Slice pdq lessIndent (rev results)"
  have "Log nt = buildLog pdq (drop (nat (pos pl)) buf')"
    using walk_Ok [OF assms] by blast
  then have log: "Log nt = concat (map (strip (minIndent lines))
      (filter (\<lambda>s. \<not> isResultActionRow s) lines @ marks))"
    by (simp only: buildLog_eq lines_def results_def marks_def)
  have small: "marks = sort_key indentCount (rev results)" if "length results \<le> 12"
    using that by (simp add: marks_def sort_Slice_small)
  have sorts: "mset marks = mset results \<and> sorted (map indentCount marks)"
    if "\<forall>xs. mset (pdq xs) = mset xs \<and> sorted (map indentCount (pdq xs))"
    using sort_Slice_sorts [OF that, of "rev results"] by (simp add: marks_def)
  have "Log nt = concat (map (strip (minIndent lines))
          (filter (\<lambda>s. \<not> isResultActionRow s) lines @ marks)) \<and>
        marks = sort_Slice pdq lessIndent (rev results) \<and>
        (length results \<le> 12 \<longrightarrow> marks = sort_key indentCount (rev results)) \<and>
        ((\<forall>xs. mset (pdq xs) = mset xs \<and> sorted (map indentCount (pdq xs))) \<longrightarrow>
           mset marks = mset results \<and> sorted (map indentCount marks))"
    using log small sorts by (simp add: marks_def)
  then show ?thesis
    unfolding Let_def lines_def [symmetric] results_def [symmetric] by (rule exI)
qed

text \<open>
  Two result lines of depth 2 and depth 1, written in this order: the log has the line of
  depth 1 first.
\<close>

theorem walk_log_order_witness:
  "walk (sort_key indentCount) (Some nodeDepths) newPrefixLog [] =
     (Ok (NestedTest (testOf []) []
        (''--- PASS: TestA/Sub (0.00s)'' @ [newline] @
         ''    --- PASS: TestA/Sub/Leaf (0.00s)'' @ [newline])),
      newPrefixLog, lineDeep @ lineShallow) \<and>
   stringsOf (lineDeep @ lineShallow) = [lineDeep, lineShallow, []] \<and>
   sort_Slice (sort_key indentCount) lessIndent
     (rev (filter isResultActionRow (stringsOf (lineDeep @ lineShallow)))) =
     [lineShallow, lineDeep] \<and>
   sorted (map indentCount (sort_Slice (sort_key indentCount) lessIndent
     (rev (filter isResultActionRow (stringsOf (lineDeep @ lineShallow))))))"
proof -
  have w: "walk (sort_key indentCount) (Some nodeDepths) newPrefixLog [] =
     (Ok (NestedTest (testOf []) []
        (''--- PASS: TestA/Sub (0.00s)'' @ [newline] @
         ''    --- PASS: TestA/Sub/Leaf (0.00s)'' @ [newline])),
      newPrefixLog, lineDeep @ lineShallow)"
    by code_simp
  have d: "drop (nat (pos newPrefixLog)) (lineDeep @ lineShallow) = lineDeep @ lineShallow"
    by (simp add: newPrefixLog_def)
  have l: "stringsOf (lineDeep @ lineShallow) = [lineDeep, lineShallow, []]"
    by code_simp
  have s: "sort_Slice (sort_key indentCount) lessIndent
     (rev (filter isResultActionRow (stringsOf (lineDeep @ lineShallow)))) =
     [lineShallow, lineDeep]"
    by code_simp
  have p: "\<forall>xs. mset (sort_key indentCount xs) = mset xs \<and>
                sorted (map indentCount (sort_key indentCount xs))"
    by simp
  have "sorted (map indentCount (sort_Slice (sort_key indentCount) lessIndent
     (rev (filter isResultActionRow (stringsOf (lineDeep @ lineShallow))))))"
    using walk_log_order [OF w, unfolded Let_def d] p by blast
  then show ?thesis
    using w l s by blast
qed

text \<open>
  Two result lines of equal count: the log has them in the reverse of their original
  order, where the stable sort of the spec keeps the original order.
\<close>

theorem walk_log_order_counterexample:
  "walk id (Some nodeTies) newPrefixLog [] =
     (Ok (NestedTest (testOf []) [] (lineFail @ linePass)), newPrefixLog, linePass @ lineFail) \<and>
   indentCount linePass = indentCount lineFail \<and>
   stableLog (linePass @ lineFail) = linePass @ lineFail \<and>
   lineFail @ linePass \<noteq> linePass @ lineFail"
  by code_simp

section \<open>Stripping the indentation\<close>

text \<open>
  C2 (as the code has it): for every node that walk returns ok for, the log is the
  concatenation of the lines, each with its first mx instances of the indent unit removed,
  wherever in the line they stand (all of them when the line has fewer); mx is the least
  indentation-unit count among the result lines of the slice, at most 1<<31 - 1, which it
  is when there is no result line. A line of count n is left with count n - mx.
  Consequently, when all non-empty lines of the slice share a count c with
  1 <= c <= 1<<31 - 1 (the piece after the last newline is empty), every line is left
  without any indent unit, so none starts with one.
\<close>

theorem walk_log_strip:
  assumes "walk pdq node pl buf = (Ok nt, pl', buf')"
  shows "let lines = stringsOf (drop (nat (pos pl)) buf');
             mx = minIndent lines
         in Log nt = concat (map (\<lambda>row. Replace row whitespaceIndent [] mx)
                        (filter (\<lambda>s. \<not> isResultActionRow s) lines @
                         sort_Slice pdq lessIndent (rev (filter isResultActionRow lines)))) \<and>
            mx \<le> 2147483647 \<and>
            (\<forall>row \<in> set lines. isResultActionRow row \<longrightarrow> mx \<le> indentCount row) \<and>
            (\<forall>row. indentCount (Replace row whitespaceIndent [] mx) = indentCount row - mx) \<and>
            (\<forall>c. 1 \<le> c \<and> c \<le> 2147483647 \<and>
                 (\<forall>row \<in> set lines. row \<noteq> [] \<longrightarrow> indentCount row = c) \<longrightarrow>
               (\<forall>row \<in> set lines.
                  indentCount (Replace row whitespaceIndent [] mx) = 0 \<and>
                  \<not> HasPrefix (Replace row whitespaceIndent [] mx) whitespaceIndent))"
proof -
  define lines where "lines = stringsOf (drop (nat (pos pl)) buf')"
  define mx where "mx = minIndent lines"
  have log: "Log nt = buildLog pdq (drop (nat (pos pl)) buf')"
    using walk_Ok [OF assms] by blast
  have le: "mx \<le> 2147483647"
    by (simp add: mx_def minIndent_def)
  have cnt: "indentCount (Replace row whitespaceIndent [] mx) = indentCount row - mx" for row
    using indentCount_strip [of mx row] by (simp add: strip_def)
  have empty: "\<not> isResultActionRow []"
    by (simp add: isResultActionRow_def Contains_def)
  have zero: "indentCount [] = 0"
    by (simp add: indentCount_def Count.simps [of "[]"] whitespaceIndent_def)
  have all: "indentCount (Replace row whitespaceIndent [] mx) = 0 \<and>
             \<not> HasPrefix (Replace row whitespaceIndent [] mx) whitespaceIndent"
    if c: "1 \<le> c" "c \<le> 2147483647" "\<forall>row \<in> set lines. row \<noteq> [] \<longrightarrow> indentCount row = c"
      and row: "row \<in> set lines" for c row
  proof -
    have "\<forall>a \<in> Set.insert 2147483647 (set (map indentCount (filter isResultActionRow lines))). c \<le> a"
      using c(2) c(3) empty by auto
    then have "c \<le> mx"
      unfolding mx_def minIndent_def by (subst Min_ge_iff) simp_all
    moreover have "indentCount row \<le> c"
      using c(3) row zero by (cases "row = []") simp_all
    ultimately have "indentCount (Replace row whitespaceIndent [] mx) = 0"
      using cnt [of row] by simp
    then show ?thesis
      using Count_0_no_prefix by (simp add: indentCount_def)
  qed
  show ?thesis
    unfolding Let_def lines_def [symmetric] mx_def [symmetric]
    using log le cnt all minIndent_le [of _ lines]
    by (simp add: buildLog_eq lines_def [symmetric] mx_def [symmetric] strip_def [abs_def]) blast
qed

text \<open>
  A narrative line and a result line of count 1 each, both ending in a newline: the slice
  has these two lines and the empty piece after the last newline, and both lines lose
  their indent unit.
\<close>

theorem walk_log_strip_witness:
  "walk id (Some nodeShared) newPrefixLog [] =
     (Ok (NestedTest (testOf []) []
        (''sub_test.go:5: hello'' @ [newline] @ ''--- PASS: TestA/Sub (0.00s)'' @ [newline])),
      newPrefixLog, lineLogged @ lineShallow) \<and>
   stringsOf (lineLogged @ lineShallow) = [lineLogged, lineShallow, []] \<and>
   indentCount lineLogged = 1 \<and> indentCount lineShallow = 1 \<and>
   minIndent [lineLogged, lineShallow, []] = 1 \<and>
   indentCount (Replace lineLogged whitespaceIndent [] (minIndent [lineLogged, lineShallow, []])) = 0 \<and>
   indentCount (Replace lineShallow whitespaceIndent [] (minIndent [lineLogged, lineShallow, []])) = 0 \<and>
   Replace lineLogged whitespaceIndent [] 1 = ''sub_test.go:5: hello'' @ [newline]"
proof -
  have w: "walk id (Some nodeShared) newPrefixLog [] =
     (Ok (NestedTest (testOf []) []
        (''sub_test.go:5: hello'' @ [newline] @ ''--- PASS: TestA/Sub (0.00s)'' @ [newline])),
      newPrefixLog, lineLogged @ lineShallow)"
    by code_simp
  have d: "stringsOf (drop (nat (pos newPrefixLog)) (lineLogged @ lineShallow)) =
      [lineLogged, lineShallow, []]"
    by code_simp
  have l: "stringsOf (lineLogged @ lineShallow) = [lineLogged, lineShallow, []]"
    by code_simp
  have m: "minIndent [lineLogged, lineShallow, []] = 1"
    by code_simp
  have i: "indentCount lineLogged = 1" "indentCount lineShallow = 1"
    by code_simp+
  have r: "Replace lineLogged whitespaceIndent [] 1 = ''sub_test.go:5: hello'' @ [newline]"
    by code_simp
  have c: "(1::nat) \<le> 1 \<and> (1::nat) \<le> 2147483647 \<and>
      (\<forall>row \<in> set [lineLogged, lineShallow, []]. row \<noteq> [] \<longrightarrow> indentCount row = 1)"
    using i by simp
  have "\<forall>row \<in> set [lineLogged, lineShallow, []].
      indentCount (Replace row whitespaceIndent [] (minIndent [lineLogged, lineShallow, []])) = 0 \<and>
      \<not> HasPrefix (Replace row whitespaceIndent [] (minIndent [lineLogged, lineShallow, []]))
          whitespaceIndent"
    using walk_log_strip [OF w, unfolded Let_def d] c by blast
  then have z: "indentCount (Replace lineLogged whitespaceIndent []
        (minIndent [lineLogged, lineShallow, []])) = 0"
    "indentCount (Replace lineShallow whitespaceIndent []
        (minIndent [lineLogged, lineShallow, []])) = 0"
    by simp_all
  show ?thesis
    using w l i m z r by (intro conjI)
qed

text \<open>
  A narrative line with an indent unit in its middle: walk removes that unit, where
  stripping leading units only leaves the line as it is.
\<close>

theorem walk_log_strip_counterexample:
  "walk id (Some nodeInner) newPrefixLog [] =
     (Ok (NestedTest (testOf []) []
        (''got4'' @ [newline] @ ''--- PASS: TestA/Sub (0.00s)'' @ [newline])),
      newPrefixLog, lineTable @ lineShallow) \<and>
   leadingLog id (lineTable @ lineShallow) =
     ''got    4'' @ [newline] @ ''--- PASS: TestA/Sub (0.00s)'' @ [newline] \<and>
   ''got4'' @ [newline] @ ''--- PASS: TestA/Sub (0.00s)'' @ [newline] \<noteq>
     ''got    4'' @ [newline] @ ''--- PASS: TestA/Sub (0.00s)'' @ [newline]"
  by code_simp

section \<open>Writing the fragments to the buffer\<close>

text \<open>
  C4: walking a node with a Test appends every output fragment of the node to the shared
  buffer, in the original order, before anything else is written: a result line with the
  prefix of the prefixLog in front of it, a narrative line unchanged.
\<close>

theorem walk_appends_output:
  "\<exists>rest. snd (snd (walk pdq (Some (PrefixNode (Some t) cs)) pl buf)) =
     buf @ concat (map (\<lambda>out. if isResultActionRow out then prefix pl @ out else out) (Output t))
         @ rest"
proof -
  obtain w where
    "snd (walkChildren pdq cs (incrPrefix pl) (writeOutput (prefix pl) (Output t) buf)) =
       writeOutput (prefix pl) (Output t) buf @ w"
    using walk_frame(2) by blast
  then have "snd (snd (walk pdq (Some (PrefixNode (Some t) cs)) pl buf)) =
      buf @ concat (map (emit (prefix pl)) (Output t)) @ w"
    by (auto simp: Let_def writeOutput_eq split: prod.splits option.splits)
  then show ?thesis
    unfolding emit_def [abs_def] by (rule exI)
qed

section \<open>The prefix and the position marker\<close>

text \<open>
  C5: every call of walk leaves the prefixLog it was given as it was at entry; the
  children of a node are walked with the prefix increased by one indent unit; each child
  gets a copy with that prefix whose position is the length of the buffer at the moment
  of the copy; and a walk that starts at the end of the buffer does not depend on the
  bytes before: it returns what it returns on the empty buffer, and appends to the buffer
  what it writes there.
\<close>

theorem walk_prefix_discipline:
  "fst (snd (walk pdq node pl buf)) = pl \<and>
   walk pdq (Some (PrefixNode (Some t) cs)) pl buf =
     (case walkChildren pdq cs \<lparr>prefix = prefix pl @ whitespaceIndent, pos = pos pl\<rparr>
             (buf @ concat (map (emit (prefix pl)) (Output t))) of
        (None, buf2) \<Rightarrow> (Panic, pl, buf2)
      | (Some children, buf2) \<Rightarrow>
          if pos pl < 0 then (NotOk, pl, buf2)
          else (Ok (NestedTest (t\<lparr>Output := []\<rparr>) children
                      (buildLog pdq (drop (nat (pos pl)) buf2))), pl, buf2)) \<and>
   walkChildren pdq (nod # nods) pl1 b =
     (case walk pdq nod \<lparr>prefix = prefix pl1, pos = int (length b)\<rparr> b of
        (Panic, _, buf1) \<Rightarrow> (None, buf1)
      | (NotOk, _, buf1) \<Rightarrow> walkChildren pdq nods pl1 buf1
      | (Ok child, _, buf1) \<Rightarrow>
          (case walkChildren pdq nods pl1 buf1 of
             (None, buf2) \<Rightarrow> (None, buf2)
           | (Some children, buf2) \<Rightarrow> (Some (child # children), buf2))) \<and>
   walk pdq nod \<lparr>prefix = p, pos = int (length b)\<rparr> b =
     (case walk pdq nod \<lparr>prefix = p, pos = 0\<rparr> [] of
        (r, pl', w) \<Rightarrow> (r, \<lparr>prefix = p, pos = int (length b)\<rparr>, b @ w))"
  using walk_frame(1) [of pdq node pl buf] walk_Some_eq [of pdq t cs pl buf]
    walk_fresh [of pdq nod p b]
  by (simp add: copy_def)

section \<open>Nodes without a Test\<close>

text \<open>
  C9 (as the code has it): walk returns not-ok for a nil node and leaves the prefixLog
  and the buffer alone, and both callers, the loop over node.Children and the loop of
  ReadAll, skip such a child. For a node that exists and whose Test is nil, walk panics on
  dereferencing it, and the panic ends the loops of the callers.
\<close>

theorem walk_missing_test:
  "walk pdq None pl buf = (NotOk, pl, buf) \<and>
   walk pdq (Some (PrefixNode None cs)) pl buf = (Panic, pl, buf) \<and>
   walkChildren pdq (None # nods) pl buf = walkChildren pdq nods pl buf \<and>
   walkAll pdq (None # nods) = walkAll pdq nods \<and>
   walkChildren pdq (Some (PrefixNode None cs) # nods) pl buf = (None, buf) \<and>
   walkAll pdq (Some (PrefixNode None cs) # nods) = None"
  by simp

theorem walk_missing_test_counterexample:
  "walk id (Some (PrefixNode None [])) newPrefixLog [] = (Panic, newPrefixLog, [])"
  by simp

section \<open>One entry for each key\<close>



section \<open>Lines that fail to decode\<close>

text \<open>
  C7 (as the code has it): for the lines the scanner yields, when the context is not
  cancelled while they are read, ReadAll returns without error; a line that fails to
  decode stops nothing: the record of every line, failed or not, is folded into the trie
  of the lines before it; the Err of the result is the join of the errors of all lines
  that failed, nil exactly when no line failed; the Tests of the result are the tree
  rebuilt from the trie, every Test of the trie in it with its log. Lines that leave no
  test name in the record, as a line that is not JSON does, change nothing: the Tests are
  those of the stream without these lines, so well-formed lines and such a malformed line
  among them yield the Tests of the well-formed lines alone. A failed line that leaves a
  test name is folded as a decoded event is, and every line that leaves a test name has
  the Test of its key in the trie.
\<close>

theorem ReadAll_decode_errors:
  assumes "\<forall>i < length lines. ctx i = None"
  shows "ReadAll pdq unmarshal ctx lines =
           Returned \<lparr>Err = errors_Join (decodeErrors unmarshal lines),
                     Tests = rebuildAll pdq [] (Children (trieOf (rowsOf unmarshal lines)))\<rparr> None \<and>
         (errors_Join (decodeErrors unmarshal lines) = None \<longleftrightarrow>
            (\<forall>line \<in> set lines. fst (unmarshal line) = None)) \<and>
         (\<forall>xs line ys. lines = xs @ line # ys \<longrightarrow>
            trieOf (rowsOf unmarshal (xs @ [line])) =
              aggregate (snd (unmarshal line)) (trieOf (rowsOf unmarshal xs))) \<and>
         trieOf (rowsOf unmarshal lines) =
           trieOf (filter (\<lambda>row. TestName row \<noteq> []) (rowsOf unmarshal lines)) \<and>
         (\<forall>ctx'. (\<forall>i. ctx' i = None) \<longrightarrow>
            (\<exists>err. ReadAll pdq unmarshal ctx'
                     (filter (\<lambda>line. TestName (snd (unmarshal line)) \<noteq> []) lines) =
                   Returned \<lparr>Err = err,
                     Tests = rebuildAll pdq [] (Children (trieOf (rowsOf unmarshal lines)))\<rparr> None)) \<and>
         flattenAll (rebuildAll pdq [] (Children (trieOf (rowsOf unmarshal lines)))) =
           map clearOutput (nodeTests (trieOf (rowsOf unmarshal lines))) \<and>
         (\<forall>line \<in> set lines. TestName (snd (unmarshal line)) \<noteq> [] \<longrightarrow>
            rowPackage (snd (unmarshal line)) @ ''/'' @ TestName (snd (unmarshal line))
              \<in> Key ` set (nodeTests (trieOf (rowsOf unmarshal lines))))"
proof -
  have gen: "ReadAll pdq unmarshal c ls =
           Returned \<lparr>Err = errors_Join (decodeErrors unmarshal ls),
                     Tests = rebuildAll pdq [] (Children (trieOf (rowsOf unmarshal ls)))\<rparr> None \<and>
         flattenAll (rebuildAll pdq [] (Children (trieOf (rowsOf unmarshal ls)))) =
           map clearOutput (nodeTests (trieOf (rowsOf unmarshal ls)))"
    if nc: "\<forall>i < length ls. c i = None" for c ls
  proof -
    have inv: "trieInv (trieOf (rowsOf unmarshal ls))"
      using trieOf_props by blast
    have k: "None \<notin> set (childKeys (Children (trieOf (rowsOf unmarshal ls))))"
      using inv by (rule trieInv_children(1))
    obtain tests where t:
      "ReadAll pdq unmarshal c ls =
        Returned \<lparr>Err = errors_Join (decodeErrors unmarshal ls), Tests = tests\<rparr> None"
      "walkAll pdq (Children (trieOf (rowsOf unmarshal ls))) = Some tests"
      "flattenAll tests = map clearOutput (nodeTests (trieOf (rowsOf unmarshal ls)))"
      using ReadAll_all [OF nc] by blast
    have "tests = rebuildAll pdq [] (Children (trieOf (rowsOf unmarshal ls)))"
      using t(2) walkAll_rebuild [OF k, of pdq] by simp
    then show ?thesis using t(1,3) by simp
  qed
  have e: "errors_Join (decodeErrors unmarshal lines) = None \<longleftrightarrow>
       (\<forall>line \<in> set lines. fst (unmarshal line) = None)"
    by (simp add: errors_Join_def decodeErrors_empty)
  have s: "\<forall>xs line ys. lines = xs @ line # ys \<longrightarrow>
            trieOf (rowsOf unmarshal (xs @ [line])) =
              aggregate (snd (unmarshal line)) (trieOf (rowsOf unmarshal xs))"
    by (simp add: rowsOf_def trieOf_def)
  have f: "trieOf (rowsOf unmarshal lines) =
      trieOf (filter (\<lambda>row. TestName row \<noteq> []) (rowsOf unmarshal lines))"
    unfolding trieOf_def by (rule foldl_aggregate_filter)
  have r: "\<forall>ctx'. (\<forall>i. ctx' i = None) \<longrightarrow>
            (\<exists>err. ReadAll pdq unmarshal ctx'
                     (filter (\<lambda>line. TestName (snd (unmarshal line)) \<noteq> []) lines) =
                   Returned \<lparr>Err = err,
                     Tests = rebuildAll pdq [] (Children (trieOf (rowsOf unmarshal lines)))\<rparr> None)"
  proof (intro allI impI)
    fix ctx' :: "nat \<Rightarrow> error option"
    assume "\<forall>i. ctx' i = None"
    then have "\<forall>i < length (filter (\<lambda>line. TestName (snd (unmarshal line)) \<noteq> []) lines).
        ctx' i = None"
      by simp
    from gen [OF this] show "\<exists>err. ReadAll pdq unmarshal ctx'
                     (filter (\<lambda>line. TestName (snd (unmarshal line)) \<noteq> []) lines) =
                   Returned \<lparr>Err = err,
                     Tests = rebuildAll pdq [] (Children (trieOf (rowsOf unmarshal lines)))\<rparr> None"
      by (simp add: rowsOf_filter f [symmetric])
  qed
  have k: "\<forall>line \<in> set lines. TestName (snd (unmarshal line)) \<noteq> [] \<longrightarrow>
       rowPackage (snd (unmarshal line)) @ ''/'' @ TestName (snd (unmarshal line))
         \<in> Key ` set (nodeTests (trieOf (rowsOf unmarshal lines)))"
    using trieOf_props [of "rowsOf unmarshal lines"] by (simp add: rowsOf_def)
  show ?thesis
    using gen [OF assms] e s f r k by (intro conjI) simp_all
qed

text \<open>
  A test with a subtest, and among its lines one that is not JSON: the Tests, with the
  logs of the test and of the subtest, are those of the stream without that line.
\<close>

theorem ReadAll_decode_errors_witness:
  "ReadAll id decodeNested liveCtx linesBroken =
     Returned
       \<lparr>Err = Some (joinError [Errorf ''json.Unmarshal: '' (DecodeError ''invalid character'')]),
        Tests = testsNested ''pass''\<rparr> None \<and>
   decodeNested ''line broken'' = (Some (DecodeError ''invalid character''), event [] [] []) \<and>
   filter (\<lambda>line. TestName (snd (decodeNested line)) \<noteq> []) linesBroken = linesNested \<and>
   ReadAll id decodeNested liveCtx linesNested =
     Returned \<lparr>Err = None, Tests = testsNested ''pass''\<rparr> None \<and>
   rebuildAll id [] (Children (trieOf (rowsOf decodeNested linesBroken))) = testsNested ''pass''"
proof -
  have live: "\<forall>i < length linesBroken. liveCtx i = None" "\<forall>i. liveCtx i = None"
    by (simp_all add: liveCtx_def)
  have bad: "decodeNested ''line broken'' = (Some (DecodeError ''invalid character''), event [] [] [])"
    by code_simp
  have fl: "filter (\<lambda>line. TestName (snd (decodeNested line)) \<noteq> []) linesBroken = linesNested"
    by code_simp
  have r: "ReadAll id decodeNested liveCtx linesBroken =
     Returned
       \<lparr>Err = Some (joinError [Errorf ''json.Unmarshal: '' (DecodeError ''invalid character'')]),
        Tests = testsNested ''pass''\<rparr> None"
    by code_simp
  note t = ReadAll_decode_errors [OF live(1), of id decodeNested]
  have 1: "rebuildAll id [] (Children (trieOf (rowsOf decodeNested linesBroken))) = testsNested ''pass''"
    using t r by simp
  have "\<exists>err. ReadAll id decodeNested liveCtx
          (filter (\<lambda>line. TestName (snd (decodeNested line)) \<noteq> []) linesBroken) =
        Returned \<lparr>Err = err,
          Tests = rebuildAll id [] (Children (trieOf (rowsOf decodeNested linesBroken)))\<rparr> None"
    using t live(2) by blast
  then obtain err where
    2: "ReadAll id decodeNested liveCtx linesNested = Returned \<lparr>Err = err, Tests = testsNested ''pass''\<rparr> None"
    unfolding fl 1 by blast
  have "ReadAll id decodeNested liveCtx linesNested = Returned \<lparr>Err = None, Tests = testsNested ''pass''\<rparr> None"
    by code_simp
  then show ?thesis
    using r bad fl 1 by (intro conjI)
qed

text \<open>
  The same well-formed lines and after them a line whose decode fails but leaves the test
  name and the action fail in the record: the Test of the well-formed lines comes out with
  the status fail instead of pass.
\<close>

theorem ReadAll_decode_errors_counterexample:
  "fst (decodeNested ''line A wrong type'') = Some (DecodeError ''cannot unmarshal'') \<and>
   ReadAll id decodeNested liveCtx linesNested =
     Returned \<lparr>Err = None, Tests = testsNested ''pass''\<rparr> None \<and>
   ReadAll id decodeNested liveCtx (linesNested @ [''line A wrong type'']) =
     Returned
       \<lparr>Err = Some (joinError [Errorf ''json.Unmarshal: '' (DecodeError ''cannot unmarshal'')]),
        Tests = testsNested ''fail''\<rparr> None \<and>
   testsNested ''fail'' \<noteq> testsNested ''pass''"
  by code_simp

section \<open>Cancellation\<close>

text \<open>
  C8 (as the code has it): the context is looked at once for each line the scanner
  yields, before the line is decoded. When it is done at the first line, or at a later
  line after lines that were folded completely, ReadAll returns the empty Set and the
  error of the context, nothing of the trie. When it is done at none of the lines, no error
  is returned. On a stream without lines the context is never looked at: ReadAll returns
  the empty result and no error, also when the context is already cancelled.
\<close>

theorem ReadAll_cancelled:
  "(lines \<noteq> [] \<and> ctx 0 = Some e \<longrightarrow>
      ReadAll pdq unmarshal ctx lines = Returned \<lparr>Err = None, Tests = []\<rparr> (Some e)) \<and>
   (k < length lines \<and> (\<forall>i < k. ctx i = None) \<and> ctx k = Some e \<longrightarrow>
      ReadAll pdq unmarshal ctx lines = Returned \<lparr>Err = None, Tests = []\<rparr> (Some e)) \<and>
   ((\<forall>i < length lines. ctx i = None) \<longrightarrow>
      (\<forall>result err. ReadAll pdq unmarshal ctx lines = Returned result err \<longrightarrow> err = None)) \<and>
   ReadAll pdq unmarshal ctx [] = Returned \<lparr>Err = None, Tests = []\<rparr> None"
proof -
  have c: "ReadAll pdq unmarshal ctx lines = Returned \<lparr>Err = None, Tests = []\<rparr> (Some e)"
    if "k < length lines" "\<forall>i < k. ctx i = None" "ctx k = Some e" for k
    using readLoop_cancel [of k lines ctx 0 e unmarshal "[]"] that by (simp add: ReadAll_def)
  have c0: "ReadAll pdq unmarshal ctx lines = Returned \<lparr>Err = None, Tests = []\<rparr> (Some e)"
    if "lines \<noteq> []" "ctx 0 = Some e"
    using c [of 0] that by simp
  have a: "\<forall>result err. ReadAll pdq unmarshal ctx lines = Returned result err \<longrightarrow> err = None"
    if "\<forall>i < length lines. ctx i = None"
    using readLoop_all [of lines ctx 0 unmarshal "[]" "PrefixNode None []"] that
    by (simp add: ReadAll_def split: option.splits)
  have n: "ReadAll pdq unmarshal ctx [] = Returned \<lparr>Err = None, Tests = []\<rparr> None"
    by (simp add: ReadAll_def errors_Join_def)
  show ?thesis
  proof (intro conjI impI)
    assume "lines \<noteq> [] \<and> ctx 0 = Some e"
    then show "ReadAll pdq unmarshal ctx lines = Returned \<lparr>Err = None, Tests = []\<rparr> (Some e)"
      using c0 by simp
  next
    assume "k < length lines \<and> (\<forall>i < k. ctx i = None) \<and> ctx k = Some e"
    then show "ReadAll pdq unmarshal ctx lines = Returned \<lparr>Err = None, Tests = []\<rparr> (Some e)"
      using c [of k] by simp
  next
    assume "\<forall>i < length lines. ctx i = None"
    then show "\<forall>result err. ReadAll pdq unmarshal ctx lines = Returned result err \<longrightarrow> err = None"
      by (rule a)
  next
    show "ReadAll pdq unmarshal ctx [] = Returned \<lparr>Err = None, Tests = []\<rparr> None"
      by (rule n)
  qed
qed

theorem ReadAll_cancelled_witness:
  "ReadAll id decodeEx cancelledCtx linesEx = Returned \<lparr>Err = None, Tests = []\<rparr> (Some Canceled) \<and>
   linesEx \<noteq> [] \<and> cancelledCtx 0 = Some Canceled \<and>
   (\<exists>result. ReadAll id decodeEx liveCtx linesEx = Returned result None)"
proof -
  have a: "linesEx \<noteq> []" "cancelledCtx 0 = Some Canceled"
    by (simp_all add: linesEx_def cancelledCtx_def)
  have live: "\<forall>i < length linesEx. liveCtx i = None"
    by (simp add: liveCtx_def)
  have 1: "ReadAll id decodeEx cancelledCtx linesEx =
      Returned \<lparr>Err = None, Tests = []\<rparr> (Some Canceled)"
    using ReadAll_cancelled [of linesEx cancelledCtx Canceled id decodeEx] a by blast
  have r: "ReadAll id decodeEx liveCtx linesEx =
     Returned
       \<lparr>Err = Some (joinError [Errorf ''json.Unmarshal: '' (DecodeError ''invalid character'')]),
        Tests = [NestedTest (newTest ''TestA'' ''pkg'') [] linePass]\<rparr> None"
    by code_simp
  have "\<forall>result err. ReadAll id decodeEx liveCtx linesEx = Returned result err \<longrightarrow> err = None"
    using ReadAll_cancelled [of linesEx liveCtx Canceled id decodeEx] live by blast
  then have 2: "\<exists>result. ReadAll id decodeEx liveCtx linesEx = Returned result None"
    using r by blast
  show ?thesis
    using 1 a 2 by (intro conjI)
qed

text \<open>
  The stream without lines, with a context that is cancelled from the start: no
  cancellation error.
\<close>

theorem ReadAll_cancelled_counterexample:
  "ReadAll id decodeEx cancelledCtx [] = Returned \<lparr>Err = None, Tests = []\<rparr> None"
  by (simp add: ReadAll_def errors_Join_def)

section \<open>A failed decode that leaves a test name\<close>

text \<open>
  C10: when decoding a line fails and the record has a test name, the loop records the
  error and goes on with the same iteration: the record is looked up in the trie, created
  when the lookup fails, and folded with Update, and the trie after the line is the trie
  that a successful decode of the same record gives.
\<close>

theorem failed_decode_is_folded:
  assumes "ctx i = None" and "unmarshal line = (Some e, row)" and "TestName row \<noteq> []"
  shows "readLoop unmarshal ctx i (line # lines) errs p =
           readLoop unmarshal ctx (Suc i) lines (errs @ [Errorf ''json.Unmarshal: '' e])
             (aggregate row p) \<and>
         aggregate row p =
           modify (rowPackage row @ ''/'' @ TestName row) (\<lambda>tc. Update tc row)
             (case find p (rowPackage row @ ''/'' @ TestName row) of
                Some tc \<Rightarrow> p
              | None \<Rightarrow> insert (newTest (TestName row) (rowPackage row)) p) \<and>
         (\<forall>decoded. decoded line = (None, row) \<longrightarrow>
            readLoop decoded ctx i [line] errs p = Inr (errs, aggregate row p)) \<and>
         readLoop unmarshal ctx i [line] errs p =
           Inr (errs @ [Errorf ''json.Unmarshal: '' e], aggregate row p)"
proof -
  have s: "readLoop unmarshal ctx i (line # lines) errs p =
           readLoop unmarshal ctx (Suc i) lines (errs @ [Errorf ''json.Unmarshal: '' e])
             (aggregate row p)" for lines
    by (simp add: assms(1,2))
  have f: "aggregate row p =
           modify (rowPackage row @ ''/'' @ TestName row) (\<lambda>tc. Update tc row)
             (case find p (rowPackage row @ ''/'' @ TestName row) of
                Some tc \<Rightarrow> p
              | None \<Rightarrow> insert (newTest (TestName row) (rowPackage row)) p)"
    using assms(3) by (simp add: aggregate_def Let_def)
  have d: "\<forall>decoded. decoded line = (None, row) \<longrightarrow>
            readLoop decoded ctx i [line] errs p = Inr (errs, aggregate row p)"
    by (simp add: assms(1))
  have s1: "readLoop unmarshal ctx i [line] errs p =
           Inr (errs @ [Errorf ''json.Unmarshal: '' e], aggregate row p)"
    by (simp add: assms(1,2))
  show ?thesis
    using s [of lines] f d s1 by (intro conjI)
qed

theorem failed_decode_is_folded_witness:
  "decodeEx ''line wrong type'' =
     (Some (DecodeError ''cannot unmarshal''), event ''TestB'' ''output'' lineFail) \<and>
   readLoop decodeEx liveCtx 1 [''line wrong type''] [] (trieOf rowsA) =
     Inr ([Errorf ''json.Unmarshal: '' (DecodeError ''cannot unmarshal'')],
          aggregate (event ''TestB'' ''output'' lineFail) (trieOf rowsA)) \<and>
   find (trieOf rowsA) ''pkg/TestB'' = None \<and>
   find (aggregate (event ''TestB'' ''output'' lineFail) (trieOf rowsA)) ''pkg/TestB'' =
     Some ((newTest ''TestB'' ''pkg'')\<lparr>Output := [lineFail]\<rparr>)"
proof -
  have c: "liveCtx 1 = None"
    by (simp add: liveCtx_def)
  have d: "decodeEx ''line wrong type'' =
     (Some (DecodeError ''cannot unmarshal''), event ''TestB'' ''output'' lineFail)"
    by code_simp
  have n: "TestName (event ''TestB'' ''output'' lineFail) \<noteq> []"
    by (simp add: event_def)
  have f: "find (trieOf rowsA) ''pkg/TestB'' = None"
    by code_simp
  have 2: "find (aggregate (event ''TestB'' ''output'' lineFail) (trieOf rowsA)) ''pkg/TestB'' =
     Some ((newTest ''TestB'' ''pkg'')\<lparr>Output := [lineFail]\<rparr>)"
    by code_simp
  have 1: "readLoop decodeEx liveCtx 1 [''line wrong type''] [] (trieOf rowsA) =
     Inr ([Errorf ''json.Unmarshal: '' (DecodeError ''cannot unmarshal'')],
          aggregate (event ''TestB'' ''output'' lineFail) (trieOf rowsA))"
    using failed_decode_is_folded [where ctx = liveCtx and i = 1 and unmarshal = decodeEx
      and line = "''line wrong type''" and e = "DecodeError ''cannot unmarshal''"
      and row = "event ''TestB'' ''output'' lineFail" and lines = "[]" and errs = "[]"
      and p = "trieOf rowsA", OF c d n]
    by simp
  show ?thesis
    using d 1 f 2 by (intro conjI)
qed

end
